theory Spec2Isabelle
  imports Complex_Main "HOL-Library.Word"
begin

unbundle bit_operations_syntax

chapter \<open>The model\<close>

section \<open>Errors raised by the library\<close>

text \<open>Every \<^verbatim>\<open>throw new Error(...)\<close> of the modelled functions is one constructor;
  the arguments are the values interpolated into the message.\<close>

datatype error =
    UnsupportedSecurityLevel int
  | ThresholdTooSmall
  | ThresholdTooLarge
  | TooManyParties
  | TooFewParties
  | NoParametersForN int
  | NoParametersForTN int int
  | WrongETA
  | WrongGAMMA1
  | WrongGAMMA2
  | Round1StateDestroyed
  | Round2StateDestroyed
  | WrongCommitmentCount nat nat
  | CommitmentHashMismatch nat
  | InvalidCommitment
  | ResponseFailed
  | UnalignedBlock
  | WrongLength string nat nat
  | MalformedKey int

section \<open>Ring constants and parameter sets (ml-dsa-primitives.ts, ml-dsa.ts)\<close>

type_synonym byte = "8 word"
type_synonym bytes = "byte list"

text \<open>An \<^verbatim>\<open>Int32Array\<close>: the coefficients are read as the integers they denote.\<close>
type_synonym poly = "int list"

definition N :: nat where
  "N = 256"

definition Q :: int where
  "Q = 8380417"

definition D :: nat where
  "D = 13"

definition GAMMA2_1 :: int where
  "GAMMA2_1 = (Q - 1) div 88"

definition GAMMA2_2 :: int where
  "GAMMA2_2 = (Q - 1) div 32"

text \<open>\<^verbatim>\<open>x | 0\<close>: the value as a signed 32-bit integer.\<close>

definition int32 :: "int \<Rightarrow> int" where
  "int32 x = signed_take_bit 31 x"

text \<open>Modelled from the spec: \<^verbatim>\<open>mod\<close> and \<^verbatim>\<open>smod\<close> come from \<^verbatim>\<open>genCrystals\<close> in
  \<^verbatim>\<open>_crystals.ts\<close>, which is not among the sources. The spec gives \<^verbatim>\<open>mod(a)\<close> as
  \<open>a mod Q\<close> in \<open>[0, Q)\<close> and \<^verbatim>\<open>smod(a)\<close> as the centred representative in
  \<open>(-Q/2, Q/2]\<close>; the callers pass the modulus as an optional second argument.\<close>

definition mod_pos :: "int \<Rightarrow> int \<Rightarrow> int" where
  "mod_pos a m = a mod m"

definition smod :: "int \<Rightarrow> int \<Rightarrow> int" where
  "smod a m = (let r = mod_pos a m in if 2 * r > m then r - m else r)"

record PrimitivesOpts =
  p_K :: nat
  p_L :: nat
  p_GAMMA1 :: int
  p_GAMMA2 :: int
  p_TAU :: nat
  p_ETA :: int
  p_OMEGA :: nat
  p_C_TILDE_BYTES :: nat
  p_CRH_BYTES :: nat
  p_TR_BYTES :: nat

record MLDSAPrimitives = PrimitivesOpts +
  p_BETA :: int

text \<open>The constructor of \<^verbatim>\<open>MLDSAPrimitives\<close>: three checks, then the fields.\<close>

definition new_MLDSAPrimitives :: "PrimitivesOpts \<Rightarrow> error + MLDSAPrimitives" where
  "new_MLDSAPrimitives opts =
    (if p_ETA opts \<notin> {2, 4} then Inl WrongETA
     else if p_GAMMA1 opts \<notin> {2 ^ 17, 2 ^ 19} then Inl WrongGAMMA1
     else if p_GAMMA2 opts \<notin> {GAMMA2_1, GAMMA2_2} then Inl WrongGAMMA2
     else Inr \<lparr>p_K = p_K opts, p_L = p_L opts, p_GAMMA1 = p_GAMMA1 opts,
               p_GAMMA2 = p_GAMMA2 opts, p_TAU = p_TAU opts, p_ETA = p_ETA opts,
               p_OMEGA = p_OMEGA opts, p_C_TILDE_BYTES = p_C_TILDE_BYTES opts,
               p_CRH_BYTES = p_CRH_BYTES opts, p_TR_BYTES = p_TR_BYTES opts,
               p_BETA = int (p_TAU opts) * p_ETA opts\<rparr>)"

text \<open>\<^verbatim>\<open>PARAMS[2]\<close>, \<^verbatim>\<open>PARAMS[3]\<close> and \<^verbatim>\<open>PARAMS[5]\<close> with the byte lengths of
  \<^verbatim>\<open>ml_dsa44\<close>, \<^verbatim>\<open>ml_dsa65\<close> and \<^verbatim>\<open>ml_dsa87\<close>.\<close>

definition opts44 :: PrimitivesOpts where
  "opts44 = \<lparr>p_K = 4, p_L = 4, p_GAMMA1 = 2 ^ 17, p_GAMMA2 = GAMMA2_1, p_TAU = 39, p_ETA = 2,
             p_OMEGA = 80, p_C_TILDE_BYTES = 32, p_CRH_BYTES = 64, p_TR_BYTES = 64\<rparr>"

definition opts65 :: PrimitivesOpts where
  "opts65 = \<lparr>p_K = 6, p_L = 5, p_GAMMA1 = 2 ^ 19, p_GAMMA2 = GAMMA2_2, p_TAU = 49, p_ETA = 4,
             p_OMEGA = 55, p_C_TILDE_BYTES = 48, p_CRH_BYTES = 64, p_TR_BYTES = 64\<rparr>"

definition opts87 :: PrimitivesOpts where
  "opts87 = \<lparr>p_K = 8, p_L = 7, p_GAMMA1 = 2 ^ 19, p_GAMMA2 = GAMMA2_2, p_TAU = 60, p_ETA = 2,
             p_OMEGA = 75, p_C_TILDE_BYTES = 64, p_CRH_BYTES = 64, p_TR_BYTES = 64\<rparr>"

definition prims44 :: MLDSAPrimitives where
  "prims44 = \<lparr>p_K = 4, p_L = 4, p_GAMMA1 = 2 ^ 17, p_GAMMA2 = GAMMA2_1, p_TAU = 39, p_ETA = 2,
             p_OMEGA = 80, p_C_TILDE_BYTES = 32, p_CRH_BYTES = 64, p_TR_BYTES = 64,
             p_BETA = 78\<rparr>"

section \<open>Decomposition (ml-dsa-primitives.ts)\<close>

text \<open>\<^verbatim>\<open>decompose(r)\<close>. \<^verbatim>\<open>Math.floor(a / b)\<close> on integers with positive \<open>b\<close> is
  \<open>a div b\<close>.\<close>

definition decompose :: "MLDSAPrimitives \<Rightarrow> int \<Rightarrow> int \<times> int" where
  "decompose p r =
    (let rPlus = mod_pos r Q;
         r0 = int32 (smod rPlus (2 * p_GAMMA2 p))
     in if rPlus - r0 = Q - 1 then (int32 0, int32 (r0 - 1))
        else (int32 ((rPlus - r0) div (2 * p_GAMMA2 p)), r0))"

definition HighBits :: "MLDSAPrimitives \<Rightarrow> int \<Rightarrow> int" where
  "HighBits p r = fst (decompose p r)"

definition LowBits :: "MLDSAPrimitives \<Rightarrow> int \<Rightarrow> int" where
  "LowBits p r = snd (decompose p r)"

section \<open>Threshold parameter tables (threshold-ml-dsa.ts)\<close>

record ThresholdParams =
  tp_T :: int
  tp_N :: int
  tp_K_iter :: int
  tp_nu :: real
  tp_r :: int
  tp_rPrime :: int

definition MAX_PARTIES :: int where
  "MAX_PARTIES = 6"

text \<open>The tables map the number of parties to the entries \<open>[K_iter, r, rPrime]\<close>,
  one entry per threshold, the first one for \<open>T = 2\<close>.\<close>

definition PARAMS_44 :: "(int \<times> (int \<times> int \<times> int) list) list" where
  "PARAMS_44 =
    [(2, [(2, 252778, 252833)]),
     (3, [(3, 310060, 310138), (4, 246490, 246546)]),
     (4, [(3, 305919, 305997), (7, 279235, 279314), (8, 243463, 243519)]),
     (5, [(3, 285363, 285459), (14, 282800, 282912), (30, 259427, 259526), (16, 239924, 239981)]),
     (6, [(4, 300265, 300362), (19, 277014, 277139), (74, 268705, 268831), (100, 250590, 250686),
          (37, 219245, 219301)])]"

definition PARAMS_65 :: "(int \<times> (int \<times> int \<times> int) list) list" where
  "PARAMS_65 =
    [(2, [(2, 344000, 344080)]),
     (3, [(3, 421700, 421810), (4, 335200, 335290)]),
     (4, [(3, 416000, 416110), (7, 379600, 379710), (8, 331000, 331090)]),
     (5, [(3, 388000, 388130), (14, 384600, 384750), (30, 352800, 352940), (16, 326200, 326280)]),
     (6, [(4, 408300, 408430), (19, 376700, 376870), (74, 365400, 365570), (100, 340700, 340830),
          (37, 298000, 298080)])]"

definition PARAMS_87 :: "(int \<times> (int \<times> int \<times> int) list) list" where
  "PARAMS_87 =
    [(2, [(2, 442000, 442100)]),
     (3, [(3, 541600, 541740), (4, 430600, 430710)]),
     (4, [(3, 534200, 534340), (7, 487500, 487640), (8, 425100, 425210)]),
     (5, [(3, 498200, 498370), (14, 494200, 494400), (30, 453300, 453470), (16, 419100, 419210)]),
     (6, [(4, 524300, 524470), (19, 483600, 483820), (74, 469200, 469420), (100, 437400, 437570),
          (37, 382800, 382910)])]"

definition ALL_PARAMS :: "(int \<times> (int \<times> (int \<times> int \<times> int) list) list) list" where
  "ALL_PARAMS = [(44, PARAMS_44), (65, PARAMS_65), (87, PARAMS_87)]"

definition normalizeSecurityLevel :: "int \<Rightarrow> int" where
  "normalizeSecurityLevel level =
    (if level = 128 then 44 else if level = 192 then 65 else if level = 256 then 87 else level)"

text \<open>\<^verbatim>\<open>ThresholdMLDSA.getParams(T, N', securityLevel)\<close>: the checks in the order of
  the source, each \<^verbatim>\<open>throw\<close> an \<open>Inl\<close>.\<close>

definition getParams :: "int \<Rightarrow> int \<Rightarrow> int \<Rightarrow> error + ThresholdParams" where
  "getParams T N' securityLevel =
    (let level = normalizeSecurityLevel securityLevel in
     case map_of ALL_PARAMS level of
       None \<Rightarrow> Inl (UnsupportedSecurityLevel securityLevel)
     | Some table \<Rightarrow>
         if T < 2 then Inl ThresholdTooSmall
         else if T > N' then Inl ThresholdTooLarge
         else if N' > MAX_PARTIES then Inl TooManyParties
         else if N' < 2 then Inl TooFewParties
         else (case map_of table N' of
                 None \<Rightarrow> Inl (NoParametersForN N')
               | Some entries \<Rightarrow>
                   (let idx = T - 2 in
                    if idx < 0 \<or> idx \<ge> int (length entries) then Inl (NoParametersForTN T N')
                    else (case entries ! nat idx of
                            (K_iter, r, rPrime) \<Rightarrow>
                              Inr \<lparr>tp_T = T, tp_N = N', tp_K_iter = K_iter, tp_nu = 3,
                                   tp_r = r, tp_rPrime = rPrime\<rparr>))))"

definition security_levels :: "int set" where
  "security_levels = {44, 65, 87, 128, 192, 256}"

definition good_params :: "int \<Rightarrow> int \<Rightarrow> error + ThresholdParams \<Rightarrow> bool" where
  "good_params T N' res =
    (case res of
       Inl e \<Rightarrow> False
     | Inr p \<Rightarrow> tp_T p = T \<and> tp_N p = N' \<and> tp_nu p = 3 \<and> 2 \<le> tp_K_iter p \<and>
                tp_K_iter p \<le> 100 \<and> tp_r p < tp_rPrime p)"

section \<open>Hint coder (ml-dsa-primitives.ts)\<close>

definition newPoly :: "nat \<Rightarrow> poly" where
  "newPoly n = replicate n 0"

text \<open>The inner loop of \<^verbatim>\<open>hintCoder.decode\<close> for one row: \<open>j\<close> runs from the previous
  cursor \<open>k\<close> to the row's cursor \<open>c\<close>; \<open>None\<close> is \<^verbatim>\<open>return false\<close>. The buffer is the
  \<open>OMEGA + K\<close> bytes that the signature coder hands over, so every read is inside it.\<close>

function hint_row :: "bytes \<Rightarrow> nat \<Rightarrow> nat \<Rightarrow> nat \<Rightarrow> poly \<Rightarrow> poly option" where
  "hint_row buf k c j hi =
    (if j < c then
       (if j > k \<and> unat (buf ! j) \<le> unat (buf ! (j - 1)) then None
        else hint_row buf k c (j + 1) (hi[unat (buf ! j) := 1]))
     else Some hi)"
  by pat_completeness auto
termination
  by (relation "measure (\<lambda>(buf, k, c, j, hi). c - j)") auto

text \<open>The loop over the rows \<open>i < K\<close>; it returns the last cursor and the rows.\<close>

function hint_rows ::
  "nat \<Rightarrow> nat \<Rightarrow> bytes \<Rightarrow> nat \<Rightarrow> nat \<Rightarrow> poly list \<Rightarrow> (nat \<times> poly list) option" where
  "hint_rows omega K' buf i k h =
    (if i < K' then
       (if unat (buf ! (omega + i)) < k \<or> unat (buf ! (omega + i)) > omega then None
        else (case hint_row buf k (unat (buf ! (omega + i))) k (newPoly N) of
                None \<Rightarrow> None
              | Some hi \<Rightarrow> hint_rows omega K' buf (i + 1) (unat (buf ! (omega + i))) (h @ [hi])))
     else Some (k, h))"
  by pat_completeness auto
termination
  by (relation "measure (\<lambda>(omega, K', buf, i, k, h). K' - i)") auto

text \<open>The last loop: every byte between the last cursor and \<open>OMEGA\<close> is zero.\<close>

function hint_tail :: "nat \<Rightarrow> bytes \<Rightarrow> nat \<Rightarrow> bool" where
  "hint_tail omega buf j =
    (if j < omega then (if buf ! j \<noteq> 0 then False else hint_tail omega buf (j + 1)) else True)"
  by pat_completeness auto
termination
  by (relation "measure (\<lambda>(omega, buf, j). omega - j)") auto

definition hintCoder_decode :: "MLDSAPrimitives \<Rightarrow> bytes \<Rightarrow> poly list option" where
  "hintCoder_decode p buf =
    (case hint_rows (p_OMEGA p) (p_K p) buf 0 0 [] of
       None \<Rightarrow> None
     | Some (k, h) \<Rightarrow> if hint_tail (p_OMEGA p) buf k then Some h else None)"

subsection \<open>The hint encoding as the specification words it\<close>

text \<open>The trailing \<open>K\<close> bytes are the cursors; row \<open>i\<close> lists its indices in the bytes
  from the previous cursor (0 for the first row) up to its own.\<close>

definition cursor :: "nat \<Rightarrow> bytes \<Rightarrow> nat \<Rightarrow> nat" where
  "cursor omega buf i = unat (buf ! (omega + i))"

definition prev_cursor :: "nat \<Rightarrow> bytes \<Rightarrow> nat \<Rightarrow> nat" where
  "prev_cursor omega buf i = (if i = 0 then 0 else cursor omega buf (i - 1))"

definition spec_cursors_ok :: "nat \<Rightarrow> nat \<Rightarrow> bytes \<Rightarrow> bool" where
  "spec_cursors_ok omega K' buf =
    (\<forall>i \<in> {..<K'}. prev_cursor omega buf i \<le> cursor omega buf i \<and> cursor omega buf i \<le> omega)"

definition spec_indices_ok :: "nat \<Rightarrow> nat \<Rightarrow> bytes \<Rightarrow> bool" where
  "spec_indices_ok omega K' buf =
    (\<forall>i \<in> {..<K'}. \<forall>j \<in> {prev_cursor omega buf i <..< cursor omega buf i}.
        unat (buf ! (j - 1)) < unat (buf ! j))"

definition spec_tail_ok :: "nat \<Rightarrow> nat \<Rightarrow> bytes \<Rightarrow> bool" where
  "spec_tail_ok omega K' buf = (\<forall>j \<in> {prev_cursor omega buf K' ..< omega}. buf ! j = 0)"

definition spec_hint_row :: "nat \<Rightarrow> bytes \<Rightarrow> nat \<Rightarrow> poly" where
  "spec_hint_row omega buf i =
    map (\<lambda>x. if \<exists>j \<in> {prev_cursor omega buf i ..< cursor omega buf i}. unat (buf ! j) = x
             then 1 else 0) [0 ..< N]"

definition spec_hint_decode :: "nat \<Rightarrow> nat \<Rightarrow> bytes \<Rightarrow> poly list option" where
  "spec_hint_decode omega K' buf =
    (if spec_cursors_ok omega K' buf \<and> spec_indices_ok omega K' buf \<and> spec_tail_ok omega K' buf
     then Some (map (spec_hint_row omega buf) [0 ..< K'])
     else None)"

text \<open>One row of the encoding is well formed: its cursor does not decrease, stays within
  \<open>OMEGA\<close>, and its indices increase strictly.\<close>

definition row_ok :: "nat \<Rightarrow> bytes \<Rightarrow> nat \<Rightarrow> bool" where
  "row_ok omega buf i \<longleftrightarrow>
    prev_cursor omega buf i \<le> cursor omega buf i \<and> cursor omega buf i \<le> omega \<and>
    (\<forall>j \<in> {prev_cursor omega buf i <..< cursor omega buf i}.
        unat (buf ! (j - 1)) < unat (buf ! j))"

text \<open>Two \<open>ML-DSA-44\<close> hint buffers (\<open>OMEGA + K = 84\<close> bytes): the first lists the indices
  1 and 5 for row 0, the second lists them in decreasing order.\<close>

definition hint_good :: bytes where
  "hint_good = [1, 5] @ replicate 78 0 @ [2, 2, 2, 2]"

definition hint_bad :: bytes where
  "hint_bad = [5, 1] @ replicate 78 0 @ [2, 2, 2, 2]"

section \<open>SampleInBall (ml-dsa-primitives.ts)\<close>

text \<open>SHAKE256 is an external collaborator. Its output for a seed enters as \<open>xof\<close>: \<open>xof n\<close>
  is the block that the \<open>n\<close>-th call of \<^verbatim>\<open>s.xofInto(buf)\<close> writes into \<^verbatim>\<open>buf\<close>, of
  \<^verbatim>\<open>shake256.blockLen\<close> bytes.\<close>

definition blockLen :: nat where
  "blockLen = 136"

text \<open>The rejection loop \<^verbatim>\<open>for (; b > i; )\<close>: it reads \<^verbatim>\<open>buf[pos++]\<close>, squeezes the next
  block \<open>xof blk\<close> when \<open>pos\<close> reaches the block length, and stops at the first byte that is
  at most \<open>i\<close>. It need not stop: \<open>None\<close> is the loop running forever.\<close>

partial_function (option) sample_byte ::
  "(nat \<Rightarrow> bytes) \<Rightarrow> nat \<Rightarrow> bytes \<Rightarrow> nat \<Rightarrow> nat \<Rightarrow> (nat \<times> bytes \<times> nat \<times> nat) option" where
  "sample_byte xof i buf pos blk =
    (if pos + 1 < blockLen then
       (if unat (buf ! pos) > i then sample_byte xof i buf (pos + 1) blk
        else Some (unat (buf ! pos), buf, pos + 1, blk))
     else
       (if unat (buf ! pos) > i then sample_byte xof i (xof blk) 0 (blk + 1)
        else Some (unat (buf ! pos), xof blk, 0, blk + 1)))"

text \<open>\<^verbatim>\<open>masks[maskPos]\<close>; beyond the eight mask bytes the read is \<^verbatim>\<open>undefined\<close>, which the
  shift turns into 0.\<close>

definition mask_at :: "bytes \<Rightarrow> nat \<Rightarrow> int" where
  "mask_at masks maskPos = (if maskPos < length masks then uint (masks ! maskPos) else 0)"

text \<open>The outer loop \<^verbatim>\<open>for (let i = N - TAU, ...; i < N; i++)\<close>.\<close>

function SampleInBall_loop ::
  "(nat \<Rightarrow> bytes) \<Rightarrow> bytes \<Rightarrow> nat \<Rightarrow> poly \<Rightarrow> bytes \<Rightarrow> nat \<Rightarrow> nat \<Rightarrow> nat \<Rightarrow> nat \<Rightarrow> poly option" where
  "SampleInBall_loop xof masks i pre buf pos blk maskPos maskBit =
    (if i < N then
       (case sample_byte xof i buf pos blk of
          None \<Rightarrow> None
        | Some (b, buf', pos', blk') \<Rightarrow>
            (let pre1 = pre[i := pre ! b];
                 pre2 = pre1[b := 1 - push_bit 1 (drop_bit maskBit (mask_at masks maskPos) AND 1)]
             in if maskBit + 1 \<ge> 8
                then SampleInBall_loop xof masks (i + 1) pre2 buf' pos' blk' (maskPos + 1) 0
                else SampleInBall_loop xof masks (i + 1) pre2 buf' pos' blk' maskPos (maskBit + 1)))
     else Some pre)"
  by pat_completeness auto
termination
  by (relation "measure (\<lambda>(xof, masks, i, pre, buf, pos, blk, maskPos, maskBit). N - i)") auto

text \<open>\<^verbatim>\<open>SampleInBall(seed)\<close>. The loop variable starts at \<open>N - TAU\<close>. For \<open>TAU > N\<close> that is
  negative: no byte is at most \<open>i\<close>, so the rejection loop of the first pass reads the
  stream forever and the call does not return.\<close>

definition SampleInBall :: "MLDSAPrimitives \<Rightarrow> (nat \<Rightarrow> bytes) \<Rightarrow> poly option" where
  "SampleInBall p xof =
    (if p_TAU p > N then None
     else
       (let pre = newPoly N;
            buf = xof 0;
            masks = take 8 buf
        in SampleInBall_loop xof masks (N - p_TAU p) pre buf 8 1 0 0))"

text \<open>What the sampler needs from the XOF to return: blocks of the block length, and after
  every block another one that holds a byte of at most \<open>bound\<close>.\<close>

definition xof_blocks :: "(nat \<Rightarrow> bytes) \<Rightarrow> bool" where
  "xof_blocks xof = (\<forall>n. length (xof n) = blockLen)"

definition xof_recurs :: "(nat \<Rightarrow> bytes) \<Rightarrow> nat \<Rightarrow> bool" where
  "xof_recurs xof bound = (\<forall>n. \<exists>m \<ge> n. \<exists>j < blockLen. unat (xof m ! j) \<le> bound)"

definition zero_xof :: "nat \<Rightarrow> bytes" where
  "zero_xof n = replicate blockLen 0"

section \<open>Commitment packing (threshold-ml-dsa.ts)\<close>

text \<open>The bitwise operators of the source work on 32-bit integers: \<^verbatim>\<open>&\<close>, \<^verbatim>\<open>|\<close> and
  \<^verbatim>\<open><<\<close> take their operands as signed 32-bit values and return one, \<^verbatim>\<open>>>>\<close> takes its
  operand as an unsigned 32-bit value; the shift count is taken modulo 32.\<close>

definition uint32 :: "int \<Rightarrow> int" where
  "uint32 x = take_bit 32 x"

definition js_and :: "int \<Rightarrow> int \<Rightarrow> int" where
  "js_and a b = int32 a AND int32 b"

definition js_or :: "int \<Rightarrow> int \<Rightarrow> int" where
  "js_or a b = int32 a OR int32 b"

definition js_shl :: "int \<Rightarrow> nat \<Rightarrow> int" where
  "js_shl a n = int32 (push_bit (n mod 32) (int32 a))"

definition js_ushr :: "int \<Rightarrow> nat \<Rightarrow> int" where
  "js_ushr a n = drop_bit (n mod 32) (uint32 a)"

text \<open>Reads of a typed array as operands of \<^verbatim>\<open>&\<close>: outside the array the read is
  \<^verbatim>\<open>undefined\<close>, which \<^verbatim>\<open>&\<close> takes as 0.\<close>

definition coef :: "poly \<Rightarrow> nat \<Rightarrow> int" where
  "coef p i = (if i < length p then p ! i else 0)"

definition byte_at :: "bytes \<Rightarrow> nat \<Rightarrow> int" where
  "byte_at buf i = (if i < length buf then uint (buf ! i) else 0)"

definition POLY_Q_SIZE :: nat where
  "POLY_Q_SIZE = (N * 23) div 8"

text \<open>\<^verbatim>\<open>polyPackW\<close>: the inner \<^verbatim>\<open>while (j >= 8)\<close>, then the loop over the coefficients.
  A store into a \<^verbatim>\<open>Uint8Array\<close> keeps the low eight bits; a store outside the array is
  dropped, as a list update outside the list is.\<close>

function pack_flush :: "bytes \<Rightarrow> nat \<Rightarrow> int \<Rightarrow> nat \<Rightarrow> nat \<Rightarrow> bytes \<times> int \<times> nat \<times> nat" where
  "pack_flush buf offset v j k =
    (if j \<ge> 8
     then pack_flush (buf[offset + k := word_of_int (js_and v 0xff)]) offset (js_ushr v 8)
            (j - 8) (k + 1)
     else (buf, v, j, k))"
  by pat_completeness auto
termination
  by (relation "measure (\<lambda>(buf, offset, v, j, k). j)") auto

function polyPackW_loop :: "poly \<Rightarrow> bytes \<Rightarrow> nat \<Rightarrow> nat \<Rightarrow> int \<Rightarrow> nat \<Rightarrow> nat \<Rightarrow> bytes" where
  "polyPackW_loop p buf offset i v j k =
    (if i < N then
       (case pack_flush buf offset (js_or v (js_shl (js_and (coef p i) 0x7fffff) j)) (j + 23) k of
          (buf', v', j', k') \<Rightarrow> polyPackW_loop p buf' offset (i + 1) v' j' k')
     else buf)"
  by pat_completeness auto
termination
  by (relation "measure (\<lambda>(p, buf, offset, i, v, j, k). N - i)") auto

definition polyPackW :: "poly \<Rightarrow> bytes \<Rightarrow> nat \<Rightarrow> bytes" where
  "polyPackW p buf offset = polyPackW_loop p buf offset 0 0 0 0"

text \<open>\<^verbatim>\<open>polyUnpackW\<close>: the inner \<^verbatim>\<open>while (j < 23)\<close>, then the loop over the coefficients;
  a coefficient of \<open>Q\<close> or more is the \<^verbatim>\<open>throw\<close>.\<close>

datatype unpack_error = InvalidCoefficient int | InvalidBufferLength nat nat | TypeError

function unpack_fill :: "bytes \<Rightarrow> nat \<Rightarrow> int \<Rightarrow> nat \<Rightarrow> nat \<Rightarrow> int \<times> nat \<times> nat" where
  "unpack_fill buf offset v j k =
    (if j < 23
     then unpack_fill buf offset (v + js_shl (js_and (byte_at buf (offset + k)) 0xff) j)
            (j + 8) (k + 1)
     else (v, j, k))"
  by pat_completeness auto
termination
  by (relation "measure (\<lambda>(buf, offset, v, j, k). 23 - j)") auto

function polyUnpackW_loop ::
  "poly \<Rightarrow> bytes \<Rightarrow> nat \<Rightarrow> nat \<Rightarrow> int \<Rightarrow> nat \<Rightarrow> nat \<Rightarrow> unpack_error + poly" where
  "polyUnpackW_loop p buf offset i v j k =
    (if i < N then
       (case unpack_fill buf offset v j k of
          (v', j', k') \<Rightarrow>
            (let coeff = js_and v' (js_shl 1 23 - 1)
             in if coeff \<ge> Q then Inl (InvalidCoefficient coeff)
                else polyUnpackW_loop (p[i := coeff]) buf offset (i + 1) (js_ushr v' 23)
                       (j' - 23) k'))
     else Inr p)"
  by pat_completeness auto
termination
  by (relation "measure (\<lambda>(p, buf, offset, i, v, j, k). N - i)") auto

definition polyUnpackW :: "poly \<Rightarrow> bytes \<Rightarrow> nat \<Rightarrow> unpack_error + poly" where
  "polyUnpackW p buf offset = polyUnpackW_loop p buf offset 0 0 0 0"

text \<open>\<^verbatim>\<open>packPolys(polys, dim', K_iter)\<close>. Reading \<^verbatim>\<open>polys[iter][j]\<close> outside the arrays
  ends in a \<^verbatim>\<open>TypeError\<close>.\<close>

function packPolys_row ::
  "poly list list \<Rightarrow> nat \<Rightarrow> nat \<Rightarrow> nat \<Rightarrow> bytes \<Rightarrow> unpack_error + bytes" where
  "packPolys_row polys dim' iter j buf =
    (if j < dim' then
       (if iter < length polys \<and> j < length (polys ! iter)
        then packPolys_row polys dim' iter (j + 1)
               (polyPackW (polys ! iter ! j) buf ((iter * dim' + j) * POLY_Q_SIZE))
        else Inl TypeError)
     else Inr buf)"
  by pat_completeness auto
termination
  by (relation "measure (\<lambda>(polys, dim', iter, j, buf). dim' - j)") auto

function packPolys_loop ::
  "poly list list \<Rightarrow> nat \<Rightarrow> nat \<Rightarrow> nat \<Rightarrow> bytes \<Rightarrow> unpack_error + bytes" where
  "packPolys_loop polys dim' K_iter iter buf =
    (if iter < K_iter then
       (case packPolys_row polys dim' iter 0 buf of
          Inl e \<Rightarrow> Inl e
        | Inr buf' \<Rightarrow> packPolys_loop polys dim' K_iter (iter + 1) buf')
     else Inr buf)"
  by pat_completeness auto
termination
  by (relation "measure (\<lambda>(polys, dim', K_iter, iter, buf). K_iter - iter)") auto

definition packPolys :: "poly list list \<Rightarrow> nat \<Rightarrow> nat \<Rightarrow> unpack_error + bytes" where
  "packPolys polys dim' K_iter =
    packPolys_loop polys dim' K_iter 0 (replicate (K_iter * dim' * POLY_Q_SIZE) 0)"

text \<open>\<^verbatim>\<open>unpackPolys(buf, dim', K_iter)\<close>.\<close>

function unpackPolys_row ::
  "bytes \<Rightarrow> nat \<Rightarrow> nat \<Rightarrow> nat \<Rightarrow> poly list \<Rightarrow> unpack_error + poly list" where
  "unpackPolys_row buf dim' iter j polys =
    (if j < dim' then
       (case polyUnpackW (newPoly N) buf ((iter * dim' + j) * POLY_Q_SIZE) of
          Inl e \<Rightarrow> Inl e
        | Inr p \<Rightarrow> unpackPolys_row buf dim' iter (j + 1) (polys @ [p]))
     else Inr polys)"
  by pat_completeness auto
termination
  by (relation "measure (\<lambda>(buf, dim', iter, j, polys). dim' - j)") auto

function unpackPolys_loop ::
  "bytes \<Rightarrow> nat \<Rightarrow> nat \<Rightarrow> nat \<Rightarrow> poly list list \<Rightarrow> unpack_error + poly list list" where
  "unpackPolys_loop buf dim' K_iter iter result =
    (if iter < K_iter then
       (case unpackPolys_row buf dim' iter 0 [] of
          Inl e \<Rightarrow> Inl e
        | Inr polys \<Rightarrow> unpackPolys_loop buf dim' K_iter (iter + 1) (result @ [polys]))
     else Inr result)"
  by pat_completeness auto
termination
  by (relation "measure (\<lambda>(buf, dim', K_iter, iter, result). K_iter - iter)") auto

definition unpackPolys :: "bytes \<Rightarrow> nat \<Rightarrow> nat \<Rightarrow> unpack_error + poly list list" where
  "unpackPolys buf dim' K_iter =
    (let expected = K_iter * dim' * POLY_Q_SIZE
     in if length buf \<noteq> expected then Inl (InvalidBufferLength expected (length buf))
        else unpackPolys_loop buf dim' K_iter 0 [])"

text \<open>The number a byte string denotes, least significant byte first, and the number a
  list of 23-bit coefficients denotes, first coefficient lowest.\<close>

fun le_val :: "bytes \<Rightarrow> int" where
  "le_val [] = 0"
| "le_val (b # bs) = uint b + 256 * le_val bs"

fun val23 :: "poly \<Rightarrow> int" where
  "val23 [] = 0"
| "val23 (c # cs) = c + 2 ^ 23 * val23 cs"

text \<open>The \<open>s\<close>-th polynomial slot of a packed buffer, and the arrays the packing is meant
  for: \<open>K_iter\<close> rows of \<open>dim\<close> polynomials of \<open>N\<close> coefficients in \<open>[0, Q)\<close>.\<close>

definition seg :: "bytes \<Rightarrow> nat \<Rightarrow> bytes" where
  "seg buf s = take POLY_Q_SIZE (drop (s * POLY_Q_SIZE) buf)"

definition normal_poly :: "poly \<Rightarrow> bool" where
  "normal_poly p = (length p = N \<and> list_all (\<lambda>c. 0 \<le> c \<and> c < Q) p)"

definition well_shaped :: "poly list list \<Rightarrow> nat \<Rightarrow> nat \<Rightarrow> bool" where
  "well_shaped polys dim' K_iter =
    (length polys = K_iter \<and>
     list_all (\<lambda>row. length row = dim' \<and> list_all normal_poly row) polys)"

text \<open>A one-by-one array with the largest coefficient, \<open>Q - 1\<close>, in it.\<close>

definition pack_example :: "poly list list" where
  "pack_example = [[[1, 2, 8380416] @ replicate 253 5]]"

section \<open>Round 3 of distributed signing (threshold-ml-dsa.ts)\<close>

text \<open>The private states of rounds 1 and 2. Their getters throw once the state is
  destroyed. The hyperball samples of round 1 are floating-point vectors; their type is
  left open.\<close>

record 'f Round1State =
  r1_stws :: 'f
  r1_commitment :: bytes
  r1_destroyed :: bool

record Round2State =
  r2_hashes :: "bytes list"
  r2_mu :: bytes
  r2_act :: nat
  r2_activePartyIds :: "nat list"
  r2_destroyed :: bool

text \<open>\<^verbatim>\<open>#hashCommitment(tr, partyId, commitment)\<close>. SHAKE256 is the external collaborator
  \<open>shake256 dkLen input\<close>; \<^verbatim>\<open>new Uint8Array([partyId])\<close> keeps the low eight bits of the
  party id.\<close>

definition hashCommitment :: "(nat \<Rightarrow> bytes \<Rightarrow> bytes) \<Rightarrow> bytes \<Rightarrow> nat \<Rightarrow> bytes \<Rightarrow> bytes" where
  "hashCommitment shake256 tr partyId commitment =
    shake256 32 (tr @ [of_nat partyId] @ commitment)"

text \<open>\<^verbatim>\<open>for (let j = 0; j < expected.length; j++) diff |= expected[j] ^ hashes[i][j]\<close>.
  Beyond the end of the stored hash the read is \<^verbatim>\<open>undefined\<close>, which \<^verbatim>\<open>^\<close> takes as 0.
  All operands are bytes, so \<open>diff\<close> stays a byte.\<close>

definition stored_byte :: "bytes \<Rightarrow> nat \<Rightarrow> byte" where
  "stored_byte h j = (if j < length h then h ! j else 0)"

function hash_diff :: "bytes \<Rightarrow> bytes \<Rightarrow> nat \<Rightarrow> byte \<Rightarrow> byte" where
  "hash_diff expected stored j diff =
    (if j < length expected
     then hash_diff expected stored (j + 1) (diff OR (expected ! j XOR stored_byte stored j))
     else diff)"
  by pat_completeness auto
termination
  by (relation "measure (\<lambda>(expected, stored, j, diff). length expected - j)") auto

text \<open>The binding check of \<^verbatim>\<open>round3\<close>: the loop over the commitments.\<close>

function verify_commitments ::
  "(nat \<Rightarrow> bytes \<Rightarrow> bytes) \<Rightarrow> bytes \<Rightarrow> nat list \<Rightarrow> bytes list \<Rightarrow> bytes list \<Rightarrow> nat \<Rightarrow> error + unit"
  where
  "verify_commitments shake256 tr activePartyIds hashes commitments i =
    (if i < length commitments then
       (if hash_diff (hashCommitment shake256 tr (activePartyIds ! i) (commitments ! i))
             (hashes ! i) 0 0 \<noteq> 0
        then Inl (CommitmentHashMismatch (activePartyIds ! i))
        else verify_commitments shake256 tr activePartyIds hashes commitments (i + 1))
     else Inr ())"
  by pat_completeness auto
termination
  by (relation "measure (\<lambda>(shake256, tr, ids, hashes, commitments, i). length commitments - i)")
    auto

text \<open>\<^verbatim>\<open>commitments.map((c) => unpackPolys(c, K, params.K_iter))\<close>: the first throw ends
  the map.\<close>

fun unpack_all :: "nat \<Rightarrow> nat \<Rightarrow> bytes list \<Rightarrow> unpack_error + poly list list list" where
  "unpack_all dim' K_iter [] = Inr []"
| "unpack_all dim' K_iter (c # cs) =
    (case unpackPolys c dim' K_iter of
       Inl e \<Rightarrow> Inl e
     | Inr ws \<Rightarrow> (case unpack_all dim' K_iter cs of Inl e \<Rightarrow> Inl e | Inr rest \<Rightarrow> Inr (ws # rest)))"

text \<open>\<^verbatim>\<open>round3(share, commitments, round1State, round2State)\<close>. The state of round 2 is
  read first, then the number of commitments is checked, then every commitment is checked
  against its stored hash, then the commitments are unpacked, and only then is the response
  computed. The response itself (aggregation, \<^verbatim>\<open>#computeResponses\<close> with its
  floating-point rejection test, \<^verbatim>\<open>packPolys\<close>) is the parameter \<open>respond\<close>.\<close>

definition round3 ::
  "(nat \<Rightarrow> bytes \<Rightarrow> bytes) \<Rightarrow> (nat \<Rightarrow> bytes \<Rightarrow> poly list list list \<Rightarrow> 'f \<Rightarrow> error + bytes) \<Rightarrow>
   MLDSAPrimitives \<Rightarrow> ThresholdParams \<Rightarrow> bytes \<Rightarrow> bytes list \<Rightarrow> 'f Round1State \<Rightarrow>
   Round2State \<Rightarrow> error + bytes" where
  "round3 shake256 respond p params tr commitments round1State round2State =
    (if r2_destroyed round2State then Inl Round2StateDestroyed
     else if length commitments \<noteq> length (r2_activePartyIds round2State)
     then Inl (WrongCommitmentCount (length (r2_activePartyIds round2State)) (length commitments))
     else (case verify_commitments shake256 tr (r2_activePartyIds round2State)
                 (r2_hashes round2State) commitments 0 of
             Inl e \<Rightarrow> Inl e
           | Inr u \<Rightarrow>
               (case unpack_all (p_K p) (nat (tp_K_iter params)) commitments of
                  Inl e \<Rightarrow> Inl InvalidCommitment
                | Inr allWs \<Rightarrow>
                    if r1_destroyed round1State then Inl Round1StateDestroyed
                    else respond (r2_act round2State) (r2_mu round2State) allWs
                           (r1_stws round1State))))"

text \<open>What the specification asks of the check, in its own words: the hash stored for peer
  \<open>i\<close> is \<open>SHAKE256(tr || single-byte(partyId_i) || commitment_i, 32)\<close>, byte for byte.\<close>

definition spec_hash_matches ::
  "(nat \<Rightarrow> bytes \<Rightarrow> bytes) \<Rightarrow> bytes \<Rightarrow> nat list \<Rightarrow> bytes list \<Rightarrow> bytes list \<Rightarrow> nat \<Rightarrow> bool" where
  "spec_hash_matches shake256 tr activePartyIds hashes commitments i =
    (hashes ! i =
       shake256 32 (tr @ [word_of_nat (activePartyIds ! i mod 256)] @ commitments ! i))"

text \<open>What the loop compares: the recomputed bytes with the stored hash cut or padded with
  zeros to their number.\<close>

definition code_hash_matches ::
  "(nat \<Rightarrow> bytes \<Rightarrow> bytes) \<Rightarrow> bytes \<Rightarrow> nat list \<Rightarrow> bytes list \<Rightarrow> bytes list \<Rightarrow> nat \<Rightarrow> bool" where
  "code_hash_matches shake256 tr activePartyIds hashes commitments i =
    (let expected = hashCommitment shake256 tr (activePartyIds ! i) (commitments ! i)
     in expected = map (stored_byte (hashes ! i)) [0 ..< length expected])"

text \<open>The continuation of \<^verbatim>\<open>round3\<close> once every commitment has passed the check.\<close>

definition round3_respond ::
  "(nat \<Rightarrow> bytes \<Rightarrow> poly list list list \<Rightarrow> 'f \<Rightarrow> error + bytes) \<Rightarrow>
   MLDSAPrimitives \<Rightarrow> ThresholdParams \<Rightarrow> bytes list \<Rightarrow> 'f Round1State \<Rightarrow>
   Round2State \<Rightarrow> error + bytes" where
  "round3_respond respond p params commitments round1State round2State =
    (case unpack_all (p_K p) (nat (tp_K_iter params)) commitments of
       Inl e \<Rightarrow> Inl InvalidCommitment
     | Inr allWs \<Rightarrow>
         if r1_destroyed round1State then Inl Round1StateDestroyed
         else respond (r2_act round2State) (r2_mu round2State) allWs (r1_stws round1State))"

text \<open>A stand-in hash for examples (every output byte zero), a state of round 2 for the
  active parties 0 and 2 whose second stored hash is not the hash of any commitment under
  it, and a state of round 1.\<close>

definition zero_hash :: "nat \<Rightarrow> bytes \<Rightarrow> bytes" where
  "zero_hash dkLen input = replicate dkLen 0"

definition example_round2 :: Round2State where
  "example_round2 =
    \<lparr>r2_hashes = [replicate 32 0, replicate 32 1], r2_mu = replicate 64 0, r2_act = 5,
     r2_activePartyIds = [0, 2], r2_destroyed = False\<rparr>"

definition example_round1 :: "unit Round1State" where
  "example_round1 = \<lparr>r1_stws = (), r1_commitment = [], r1_destroyed = False\<rparr>"

definition params_2_3_44 :: ThresholdParams where
  "params_2_3_44 =
    \<lparr>tp_T = 2, tp_N = 3, tp_K_iter = 3, tp_nu = 3, tp_r = 310060, tp_rPrime = 310138\<rparr>"

text \<open>A commitment that unpacks (the packing of zero polynomials), and a state of round 2
  whose first stored hash has 33 bytes.\<close>

definition zero_polys :: "poly list list" where
  "zero_polys = replicate 3 (replicate 4 (newPoly N))"

definition zero_commitment :: bytes where
  "zero_commitment = (case packPolys zero_polys 4 3 of Inr buf \<Rightarrow> buf | Inl err \<Rightarrow> [])"

definition long_round2 :: Round2State where
  "long_round2 =
    \<lparr>r2_hashes = [replicate 33 0, replicate 32 0], r2_mu = replicate 64 0, r2_act = 5,
     r2_activePartyIds = [0, 2], r2_destroyed = False\<rparr>"

section \<open>Ring arithmetic and hints (ml-dsa-primitives.ts)\<close>

text \<open>The polynomial operations, on polynomials of \<open>N\<close> coefficients. A read beyond the
  second operand gives \<^verbatim>\<open>undefined\<close>; the sum or product is then \<^verbatim>\<open>NaN\<close> and the
  \<^verbatim>\<open>Int32Array\<close> stores 0.\<close>

definition polyAdd :: "poly \<Rightarrow> poly \<Rightarrow> poly" where
  "polyAdd a b = map (\<lambda>i. if i < length b then mod_pos (a ! i + b ! i) Q else 0) [0 ..< length a]"

definition polySub :: "poly \<Rightarrow> poly \<Rightarrow> poly" where
  "polySub a b = map (\<lambda>i. if i < length b then mod_pos (a ! i - b ! i) Q else 0) [0 ..< length a]"

definition polyShiftl :: "poly \<Rightarrow> poly" where
  "polyShiftl p = map (\<lambda>i. if i < N then js_shl (p ! i) D else p ! i) [0 ..< length p]"

text \<open>\<^verbatim>\<open>polyChknorm(p, B)\<close> reads \<open>N\<close> coefficients; a missing one is \<^verbatim>\<open>undefined\<close>, which the
  reduction takes as 0.\<close>

definition polyChknorm :: "poly \<Rightarrow> int \<Rightarrow> bool" where
  "polyChknorm p B = list_ex (\<lambda>i. \<bar>smod (coef p i) Q\<bar> \<ge> B) [0 ..< N]"

text \<open>The product of two coefficients is a double: exact below \<open>2 ^ 53\<close>, and rounded to 53
  significant bits, ties to the even neighbour, from there on. \<open>width n\<close> is the number of
  bits of \<open>n\<close>.\<close>

fun width :: "nat \<Rightarrow> nat" where
  "width n = (if n = 0 then 0 else Suc (width (n div 2)))"

definition js_double :: "int \<Rightarrow> int" where
  "js_double x =
    (if \<bar>x\<bar> < 2 ^ 53 then x
     else
       (let q = 2 ^ (width (nat \<bar>x\<bar>) - 53);
            lo = (x div q) * q;
            r = x - lo
        in if 2 * r < q then lo
           else if 2 * r > q then lo + q
           else if even (x div q) then lo else lo + q))"

definition MultiplyNTTs :: "poly \<Rightarrow> poly \<Rightarrow> poly" where
  "MultiplyNTTs a b =
    map (\<lambda>i. if i < length a \<and> i < length b then mod_pos (js_double (a ! i * b ! i)) Q else 0)
      [0 ..< N]"

definition MakeHint :: "MLDSAPrimitives \<Rightarrow> int \<Rightarrow> int \<Rightarrow> int" where
  "MakeHint p z r =
    (if z \<le> p_GAMMA2 p \<or> z > Q - p_GAMMA2 p \<or> (z = Q - p_GAMMA2 p \<and> r = 0) then 0 else 1)"

definition UseHint :: "MLDSAPrimitives \<Rightarrow> int \<Rightarrow> int \<Rightarrow> int" where
  "UseHint p h r =
    (let m = (Q - 1) div (2 * p_GAMMA2 p);
         (r1, r0) = decompose p r
     in if h = 1 then (if r0 > 0 then int32 (mod_pos (r1 + 1) m) else int32 (mod_pos (r1 - 1) m))
        else int32 r1)"

definition polyUseHint :: "MLDSAPrimitives \<Rightarrow> poly \<Rightarrow> poly \<Rightarrow> poly" where
  "polyUseHint p u h =
    map (\<lambda>i. if i < N then UseHint p (coef h i) (u ! i) else u ! i) [0 ..< length u]"

text \<open>\<^verbatim>\<open>polyMakeHint(a, b)\<close>. A comparison with \<^verbatim>\<open>undefined\<close> is false, so a missing \<open>a[i]\<close>
  gives the hint 1, and a missing \<open>b[i]\<close> is not \<^verbatim>\<open>=== 0\<close>.\<close>

definition polyMakeHint :: "MLDSAPrimitives \<Rightarrow> poly \<Rightarrow> poly \<Rightarrow> poly \<times> int" where
  "polyMakeHint p a b =
    (let v = map (\<lambda>i. if i < length a
                        then MakeHint p (a ! i) (if i < length b then b ! i else 1)
                        else 1) [0 ..< N]
     in (v, sum_list v))"

subsection \<open>RejNTTPoly\<close>

text \<open>\<open>blocks n\<close> is the block that the \<open>n\<close>-th call of \<^verbatim>\<open>xof()\<close> returns. The inner loop
  takes three bytes at a time; the outer one fetches blocks until \<open>N\<close> coefficients are
  accepted, which need not happen.\<close>

definition triple_val :: "bytes \<Rightarrow> nat \<Rightarrow> int" where
  "triple_val b i =
    js_and (js_or (js_or (uint (b ! i)) (js_shl (uint (b ! (i + 1))) 8))
                  (js_shl (uint (b ! (i + 2))) 16)) 0x7fffff"

function rej_block :: "bytes \<Rightarrow> nat \<Rightarrow> poly \<Rightarrow> nat \<Rightarrow> poly \<times> nat" where
  "rej_block b i r j =
    (if j < N \<and> i + 3 \<le> length b then
       (let t = triple_val b i
        in if t < Q then rej_block b (i + 3) (r[j := t]) (j + 1) else rej_block b (i + 3) r j)
     else (r, j))"
  by pat_completeness auto
termination
  by (relation "measure (\<lambda>(b, i, r, j). length b - i)") auto

partial_function (option) RejNTTPoly_loop ::
  "(nat \<Rightarrow> bytes) \<Rightarrow> nat \<Rightarrow> poly \<Rightarrow> nat \<Rightarrow> (error + poly) option" where
  "RejNTTPoly_loop blocks n r j =
    (if j < N then
       (if length (blocks n) mod 3 \<noteq> 0 then Some (Inl UnalignedBlock)
        else RejNTTPoly_loop blocks (n + 1) (fst (rej_block (blocks n) 0 r j))
               (snd (rej_block (blocks n) 0 r j)))
     else Some (Inr r))"

definition RejNTTPoly :: "(nat \<Rightarrow> bytes) \<Rightarrow> (error + poly) option" where
  "RejNTTPoly blocks = RejNTTPoly_loop blocks 0 (newPoly N) 0"

text \<open>What the sampler needs from the XOF to return a polynomial: aligned blocks, and after
  every block another one with a three-byte value below \<open>Q\<close> at a position it reads.\<close>

definition block_accepts :: "bytes \<Rightarrow> bool" where
  "block_accepts b =
    list_ex (\<lambda>i. i mod 3 = 0 \<and> i + 3 \<le> length b \<and> triple_val b i < Q) [0 ..< length b]"

definition xof_aligned :: "(nat \<Rightarrow> bytes) \<Rightarrow> bool" where
  "xof_aligned blocks = (\<forall>n. length (blocks n) mod 3 = 0)"

definition xof_accepts :: "(nat \<Rightarrow> bytes) \<Rightarrow> bool" where
  "xof_accepts blocks = (\<forall>n. \<exists>m \<ge> n. block_accepts (blocks m))"

section \<open>Verification (ml-dsa.ts)\<close>

text \<open>The collaborators that live outside the files at hand: SHAKE256 as a hash and as a
  block stream, the two XOFs of \<^verbatim>\<open>_crystals.ts\<close> (\<open>c_XOF128 e seed x y n\<close> is the \<open>n\<close>-th
  block of \<^verbatim>\<open>XOF128(seed).get(x, y)\<close>, \<open>c_XOF256 e seed x y\<close> the one block that
  \<^verbatim>\<open>XOF256(seed, blockLen).get(x, y)()\<close> returns), the number-theoretic transform, the bit-packing
  coders of the polynomials, and the random source.\<close>

record Crystals =
  c_shake256 :: "nat \<Rightarrow> bytes \<Rightarrow> bytes"
  c_shake256_xof :: "bytes \<Rightarrow> nat \<Rightarrow> bytes"
  c_XOF128 :: "bytes \<Rightarrow> nat \<Rightarrow> nat \<Rightarrow> nat \<Rightarrow> bytes"
  c_XOF256 :: "bytes \<Rightarrow> int \<Rightarrow> int \<Rightarrow> bytes"
  c_NTT_encode :: "poly \<Rightarrow> poly"
  c_NTT_decode :: "poly \<Rightarrow> poly"
  c_T1_decode :: "bytes \<Rightarrow> poly"
  c_T0_decode :: "bytes \<Rightarrow> poly"
  c_ETA_decode :: "bytes \<Rightarrow> error + poly"
  c_Z_decode :: "bytes \<Rightarrow> poly"
  c_Z_encode :: "poly \<Rightarrow> bytes"
  c_W1_encode :: "poly \<Rightarrow> bytes"
  c_randomBytes :: "nat \<Rightarrow> bytes"

text \<open>A computation that may throw (\<open>Inl\<close>) or run forever (\<open>None\<close>), and its sequencing.\<close>

type_synonym 'a outcome = "(error + 'a) option"

definition bind_r :: "'a outcome \<Rightarrow> ('a \<Rightarrow> 'b outcome) \<Rightarrow> 'b outcome" where
  "bind_r m f = (case m of None \<Rightarrow> None | Some (Inl e) \<Rightarrow> Some (Inl e) | Some (Inr x) \<Rightarrow> f x)"

text \<open>Byte lengths of the coders: a polynomial in \<open>d\<close> bits per coefficient takes \<open>d * N / 8\<close>
  bytes.\<close>

definition T1_bytesLen :: nat where
  "T1_bytesLen = 10 * N div 8"

definition Z_bytesLen :: "MLDSAPrimitives \<Rightarrow> nat" where
  "Z_bytesLen p = (if p_GAMMA1 p = 2 ^ 17 then 18 else 20) * N div 8"

definition hint_bytesLen :: "MLDSAPrimitives \<Rightarrow> nat" where
  "hint_bytesLen p = p_OMEGA p + p_K p"

definition publicCoder_bytesLen :: "MLDSAPrimitives \<Rightarrow> nat" where
  "publicCoder_bytesLen p = 32 + p_K p * T1_bytesLen"

definition sigCoder_bytesLen :: "MLDSAPrimitives \<Rightarrow> nat" where
  "sigCoder_bytesLen p = p_C_TILDE_BYTES p + p_L p * Z_bytesLen p + hint_bytesLen p"

text \<open>Modelled from the spec: \<^verbatim>\<open>vecCoder\<close> and \<^verbatim>\<open>splitCoder\<close> of \<^verbatim>\<open>utils.ts\<close>, which is not
  among the files. A vector coder is the concatenation of its elements' encodings; a split
  coder cuts the buffer at the lengths of its parts, and a buffer of another length than
  their sum is an input-validation error, fatal to the call.\<close>

definition vec_decode :: "(bytes \<Rightarrow> 'a) \<Rightarrow> nat \<Rightarrow> nat \<Rightarrow> bytes \<Rightarrow> 'a list" where
  "vec_decode dec len cnt buf = map (\<lambda>i. dec (take len (drop (i * len) buf))) [0 ..< cnt]"

definition vec_encode :: "('a \<Rightarrow> bytes) \<Rightarrow> 'a list \<Rightarrow> bytes" where
  "vec_encode enc xs = concat (map enc xs)"

definition publicCoder_decode ::
  "Crystals \<Rightarrow> MLDSAPrimitives \<Rightarrow> bytes \<Rightarrow> error + (bytes \<times> poly list)" where
  "publicCoder_decode e p buf =
    (if length buf \<noteq> publicCoder_bytesLen p
     then Inl (WrongLength ''publicKey'' (publicCoder_bytesLen p) (length buf))
     else Inr (take 32 buf, vec_decode (c_T1_decode e) T1_bytesLen (p_K p) (drop 32 buf)))"

definition sigCoder_decode ::
  "Crystals \<Rightarrow> MLDSAPrimitives \<Rightarrow> bytes \<Rightarrow> error + (bytes \<times> poly list \<times> poly list option)" where
  "sigCoder_decode e p buf =
    (if length buf \<noteq> sigCoder_bytesLen p
     then Inl (WrongLength ''signature'' (sigCoder_bytesLen p) (length buf))
     else Inr (take (p_C_TILDE_BYTES p) buf,
       vec_decode (c_Z_decode e) (Z_bytesLen p) (p_L p) (drop (p_C_TILDE_BYTES p) buf),
       hintCoder_decode p (drop (p_C_TILDE_BYTES p + p_L p * Z_bytesLen p) buf)))"

text \<open>The inner loop of \<^verbatim>\<open>verify\<close>, \<^verbatim>\<open>for (let j = 0; j < L; j++)\<close>: it samples \<open>A[i][j]\<close> and adds
  its product with \<open>zNtt[j]\<close> to \<open>Az\<close>.\<close>

function verify_Az ::
  "Crystals \<Rightarrow> bytes \<Rightarrow> poly list \<Rightarrow> nat \<Rightarrow> nat \<Rightarrow> nat \<Rightarrow> poly \<Rightarrow> poly outcome" where
  "verify_Az e rho zNtt L' i j Az =
    (if j < L' then
       bind_r (RejNTTPoly (c_XOF128 e rho j i))
         (\<lambda>aij. verify_Az e rho zNtt L' i (j + 1) (polyAdd Az (MultiplyNTTs aij (zNtt ! j))))
     else Some (Inr Az))"
  by pat_completeness auto
termination
  by (relation "measure (\<lambda>(e, rho, zNtt, L', i, j, Az). L' - j)") auto

text \<open>The outer loop, \<^verbatim>\<open>for (let i = 0; i < K; i++)\<close>, which collects \<open>wTick1\<close>.\<close>

function verify_rows ::
  "Crystals \<Rightarrow> MLDSAPrimitives \<Rightarrow> bytes \<Rightarrow> poly list \<Rightarrow> poly \<Rightarrow> poly list \<Rightarrow> poly list \<Rightarrow>
    nat \<Rightarrow> poly list \<Rightarrow> poly list outcome" where
  "verify_rows e p rho t1 c zNtt h i wTick1 =
    (if i < p_K p then
       (let ct12d = MultiplyNTTs (c_NTT_encode e (polyShiftl (t1 ! i))) c
        in bind_r (verify_Az e rho zNtt (p_L p) i 0 (newPoly N))
             (\<lambda>Az. let wApprox = c_NTT_decode e (polySub Az ct12d)
                   in verify_rows e p rho t1 c zNtt h (i + 1)
                        (wTick1 @ [polyUseHint p wApprox (h ! i)])))
     else Some (Inr wTick1))"
  by pat_completeness auto
termination
  by (relation "measure (\<lambda>(e, p, rho, t1, c, zNtt, h, i, wTick1). p_K p - i)") auto

text \<open>\<^verbatim>\<open>internal.verify(sig, msg, publicKey, {externalMu})\<close>. The result is \<open>Some (Inr b)\<close> when
  the call returns the boolean \<open>b\<close>, \<open>Some (Inl err)\<close> when it throws, and \<open>None\<close> when one of
  its sampling loops never ends.\<close>

definition internal_verify ::
  "Crystals \<Rightarrow> MLDSAPrimitives \<Rightarrow> bytes \<Rightarrow> bytes \<Rightarrow> bytes \<Rightarrow> bool \<Rightarrow> bool outcome" where
  "internal_verify e p sig msg publicKey externalMu =
    (case publicCoder_decode e p publicKey of
       Inl err \<Rightarrow> Some (Inl err)
     | Inr (rho, t1) \<Rightarrow>
       (let tr = c_shake256 e (p_TR_BYTES p) publicKey in
        if length sig \<noteq> sigCoder_bytesLen p then Some (Inr False)
        else
          (case sigCoder_decode e p sig of
             Inl err \<Rightarrow> Some (Inl err)
           | Inr (cTilde, z, None) \<Rightarrow> Some (Inr False)
           | Inr (cTilde, z, Some h) \<Rightarrow>
             if list_ex (\<lambda>i. polyChknorm (z ! i) (p_GAMMA1 p - p_BETA p)) [0 ..< p_L p]
             then Some (Inr False)
             else
               (let mu = (if externalMu then msg else c_shake256 e (p_CRH_BYTES p) (tr @ msg))
                in case SampleInBall p (c_shake256_xof e cTilde) of
                     None \<Rightarrow> None
                   | Some c0 \<Rightarrow>
                     (let c = c_NTT_encode e c0;
                          zNtt = map (c_NTT_encode e) z
                      in bind_r (verify_rows e p rho t1 c zNtt h 0 [])
                           (\<lambda>wTick1.
                             let c2 = c_shake256 e (p_C_TILDE_BYTES p)
                                        (mu @ vec_encode (c_W1_encode e) wTick1)
                             in if list_ex (\<lambda>t. \<not> sum_list t \<le> int (p_OMEGA p)) h
                                then Some (Inr False)
                                else if list_ex (\<lambda>t. polyChknorm t (p_GAMMA1 p - p_BETA p)) z
                                then Some (Inr False)
                                else Some (Inr (cTilde = c2))))))))"

text \<open>What \<^verbatim>\<open>verify\<close> needs from the XOFs to return: the streams of \<^verbatim>\<open>SampleInBall\<close> and of
  every \<open>A[i][j]\<close> keep producing values the samplers accept.\<close>

definition verify_xofs_ok :: "Crystals \<Rightarrow> MLDSAPrimitives \<Rightarrow> bytes \<Rightarrow> bytes \<Rightarrow> bool" where
  "verify_xofs_ok e p sig publicKey =
    (xof_blocks (c_shake256_xof e (take (p_C_TILDE_BYTES p) sig)) \<and>
     xof_recurs (c_shake256_xof e (take (p_C_TILDE_BYTES p) sig)) (N - p_TAU p) \<and>
     (\<forall>i j. xof_aligned (c_XOF128 e (take 32 publicKey) j i) \<and>
            xof_accepts (c_XOF128 e (take 32 publicKey) j i)))"

text \<open>Collaborators that answer with zeros, to run the model on.\<close>

definition zero_crystals :: Crystals where
  "zero_crystals = \<lparr> c_shake256 = (\<lambda>n b. replicate n 0),
     c_shake256_xof = (\<lambda>seed. zero_xof),
     c_XOF128 = (\<lambda>seed x y n. replicate 168 0),
     c_XOF256 = (\<lambda>seed x y. replicate 640 0),
     c_NTT_encode = (\<lambda>r. r), c_NTT_decode = (\<lambda>r. r),
     c_T1_decode = (\<lambda>b. newPoly N), c_T0_decode = (\<lambda>b. newPoly N),
     c_ETA_decode = (\<lambda>b. Inr (newPoly N)),
     c_Z_decode = (\<lambda>b. newPoly N), c_Z_encode = (\<lambda>r. []),
     c_W1_encode = (\<lambda>r. []), c_randomBytes = (\<lambda>n. replicate n 0) \<rparr>"

section \<open>Signing (ml-dsa.ts)\<close>

text \<open>The options of a signing call: \<^verbatim>\<open>extraEntropy\<close> is \<^verbatim>\<open>false\<close>, absent or 32 bytes of the
  caller; \<^verbatim>\<open>externalMu\<close> says that the message already is the digest \<open>mu\<close>; \<^verbatim>\<open>context\<close> is
  read by the public \<^verbatim>\<open>sign\<close> only.\<close>

datatype entropy = EntropyFalse | EntropyDefault | Entropy bytes

record SigOpts =
  o_extraEntropy :: entropy
  o_externalMu :: bool
  o_context :: bytes

definition ETA_bytesLen :: "MLDSAPrimitives \<Rightarrow> nat" where
  "ETA_bytesLen p = (if p_ETA p = 2 then 3 else 4) * N div 8"

definition T0_bytesLen :: nat where
  "T0_bytesLen = 13 * N div 8"

definition secretCoder_bytesLen :: "MLDSAPrimitives \<Rightarrow> nat" where
  "secretCoder_bytesLen p =
    32 + 32 + p_TR_BYTES p + p_L p * ETA_bytesLen p + p_K p * ETA_bytesLen p + p_K p * T0_bytesLen"

text \<open>The first element that fails to decode ends the decoding of a vector.\<close>

primrec sequence_r :: "(error + 'a) list \<Rightarrow> error + 'a list" where
  "sequence_r [] = Inr []"
| "sequence_r (x # xs) =
    (case x of
       Inl err \<Rightarrow> Inl err
     | Inr v \<Rightarrow> (case sequence_r xs of Inl err \<Rightarrow> Inl err | Inr vs \<Rightarrow> Inr (v # vs)))"

text \<open>\<^verbatim>\<open>secretCoder.decode\<close>: \<open>rho\<close>, \<open>K\<close> and \<open>tr\<close> are parts of the key's bytes, the three
  vectors are decoded into new polynomials.\<close>

definition secretCoder_decode ::
  "Crystals \<Rightarrow> MLDSAPrimitives \<Rightarrow> bytes \<Rightarrow>
    error + (bytes \<times> bytes \<times> bytes \<times> poly list \<times> poly list \<times> poly list)" where
  "secretCoder_decode e p buf =
    (if length buf \<noteq> secretCoder_bytesLen p
     then Inl (WrongLength ''secretKey'' (secretCoder_bytesLen p) (length buf))
     else
       (let o1 = 64 + p_TR_BYTES p;
            o2 = o1 + p_L p * ETA_bytesLen p;
            o3 = o2 + p_K p * ETA_bytesLen p
        in case sequence_r (vec_decode (c_ETA_decode e) (ETA_bytesLen p) (p_L p) (drop o1 buf)) of
             Inl err \<Rightarrow> Inl err
           | Inr s1 \<Rightarrow>
             (case sequence_r (vec_decode (c_ETA_decode e) (ETA_bytesLen p) (p_K p) (drop o2 buf)) of
                Inl err \<Rightarrow> Inl err
              | Inr s2 \<Rightarrow>
                Inr (take 32 buf, take 32 (drop 32 buf), take (p_TR_BYTES p) (drop 64 buf),
                     s1, s2, vec_decode (c_T0_decode e) T0_bytesLen (p_K p) (drop o3 buf)))))"

text \<open>The matrix \<open>A\<close>, row by row.\<close>

function expandA_row ::
  "Crystals \<Rightarrow> bytes \<Rightarrow> nat \<Rightarrow> nat \<Rightarrow> nat \<Rightarrow> poly list \<Rightarrow> poly list outcome" where
  "expandA_row e rho L' i j pv =
    (if j < L' then
       bind_r (RejNTTPoly (c_XOF128 e rho j i)) (\<lambda>aij. expandA_row e rho L' i (j + 1) (pv @ [aij]))
     else Some (Inr pv))"
  by pat_completeness auto
termination
  by (relation "measure (\<lambda>(e, rho, L', i, j, pv). L' - j)") auto

function expandA ::
  "Crystals \<Rightarrow> MLDSAPrimitives \<Rightarrow> bytes \<Rightarrow> nat \<Rightarrow> poly list list \<Rightarrow> poly list list outcome" where
  "expandA e p rho i A =
    (if i < p_K p then
       bind_r (expandA_row e rho (p_L p) i 0 []) (\<lambda>pv. expandA e p rho (i + 1) (A @ [pv]))
     else Some (Inr A))"
  by pat_completeness auto
termination
  by (relation "measure (\<lambda>(e, p, rho, i, A). p_K p - i)") auto

text \<open>What \<^verbatim>\<open>internal.sign\<close> has computed when it enters \<^verbatim>\<open>main_loop\<close>.\<close>

record SignCtx =
  sc_A :: "poly list list"
  sc_s1 :: "poly list"
  sc_s2 :: "poly list"
  sc_t0 :: "poly list"
  sc_mu :: bytes
  sc_rhoprime :: bytes

definition sign_setup ::
  "Crystals \<Rightarrow> MLDSAPrimitives \<Rightarrow> bytes \<Rightarrow> bytes \<Rightarrow> SigOpts \<Rightarrow> SignCtx outcome" where
  "sign_setup e p msg secretKey signOpts =
    (case secretCoder_decode e p secretKey of
       Inl err \<Rightarrow> Some (Inl err)
     | Inr (rho, K', tr, s1, s2, t0) \<Rightarrow>
       bind_r (expandA e p rho 0 [])
         (\<lambda>A. let mu = (if o_externalMu signOpts then msg
                         else c_shake256 e (p_CRH_BYTES p) (tr @ msg));
                   rnd = (case o_extraEntropy signOpts of
                            EntropyFalse \<Rightarrow> replicate 32 0
                          | EntropyDefault \<Rightarrow> c_randomBytes e 32
                          | Entropy random \<Rightarrow> random)
               in if length rnd \<noteq> 32 then Some (Inl (WrongLength ''extraEntropy'' 32 (length rnd)))
                  else
                    (let rhoprime = c_shake256 e (p_CRH_BYTES p) (K' @ rnd @ mu)
                     in if length rhoprime \<noteq> p_CRH_BYTES p
                        then Some (Inl (WrongLength ''Uint8Array'' (p_CRH_BYTES p) (length rhoprime)))
                        else Some (Inr \<lparr> sc_A = A,
                               sc_s1 = map (c_NTT_encode e) s1,
                               sc_s2 = map (c_NTT_encode e) s2,
                               sc_t0 = map (c_NTT_encode e) t0,
                               sc_mu = mu, sc_rhoprime = rhoprime \<rparr>))))"

text \<open>\<^verbatim>\<open>hintCoder.encode\<close>, for the \<open>K\<close> rows of \<open>N\<close> coefficients that \<^verbatim>\<open>sign\<close> hands over: the
  positions of the nonzero coefficients of each row, then the running count at \<open>OMEGA + i\<close>.
  A write beyond the array is dropped.\<close>

function hint_enc_row :: "poly \<Rightarrow> nat \<Rightarrow> nat \<Rightarrow> bytes \<Rightarrow> bytes \<times> nat" where
  "hint_enc_row hi j k res =
    (if j < N then
       (if coef hi j \<noteq> 0 then hint_enc_row hi (j + 1) (k + 1) (res[k := of_nat j])
        else hint_enc_row hi (j + 1) k res)
     else (res, k))"
  by pat_completeness auto
termination
  by (relation "measure (\<lambda>(hi, j, k, res). N - j)") auto

function hint_enc_rows :: "MLDSAPrimitives \<Rightarrow> poly list \<Rightarrow> nat \<Rightarrow> nat \<Rightarrow> bytes \<Rightarrow> bytes" where
  "hint_enc_rows p h i k res =
    (if i < p_K p then
       (let (res', k') = hint_enc_row (h ! i) 0 k res
        in hint_enc_rows p h (i + 1) k' (res'[p_OMEGA p + i := of_nat k']))
     else res)"
  by pat_completeness auto
termination
  by (relation "measure (\<lambda>(p, h, i, k, res). p_K p - i)") auto

definition hintCoder_encode :: "MLDSAPrimitives \<Rightarrow> poly list \<Rightarrow> bytes" where
  "hintCoder_encode p h = hint_enc_rows p h 0 0 (replicate (p_OMEGA p + p_K p) 0)"

definition sigCoder_encode ::
  "Crystals \<Rightarrow> MLDSAPrimitives \<Rightarrow> bytes \<Rightarrow> poly list \<Rightarrow> poly list \<Rightarrow> bytes" where
  "sigCoder_encode e p cTilde z h = cTilde @ vec_encode (c_Z_encode e) z @ hintCoder_encode p h"

text \<open>\<^verbatim>\<open>kappa >> 8\<close>.\<close>

definition js_sar :: "int \<Rightarrow> nat \<Rightarrow> int" where
  "js_sar a n = drop_bit (n mod 32) (int32 a)"

text \<open>One pass through the body of \<^verbatim>\<open>main_loop\<close>, entered with the counter \<open>kappa\<close>: it is
  rejected (\<^verbatim>\<open>continue\<close>) or ends the call with a signature. The pieces first: row \<open>i\<close> of
  \<open>w\<close>, and the second loop, which leaves at the first row that fails a norm check.\<close>

datatype attempt = Rejected | Accepted bytes

definition sign_w :: "Crystals \<Rightarrow> MLDSAPrimitives \<Rightarrow> poly list list \<Rightarrow> poly list \<Rightarrow> nat \<Rightarrow> poly" where
  "sign_w e p A z i =
    c_NTT_decode e
      (foldl (\<lambda>wi j. polyAdd wi (MultiplyNTTs (A ! i ! j) (z ! j))) (newPoly N) [0 ..< p_L p])"

function sign_hints ::
  "Crystals \<Rightarrow> MLDSAPrimitives \<Rightarrow> SignCtx \<Rightarrow> poly \<Rightarrow> poly list \<Rightarrow> poly list \<Rightarrow> nat \<Rightarrow>
    poly list \<Rightarrow> int \<Rightarrow> (poly list \<times> int) option" where
  "sign_hints e p sc cHat w w1 i h cnt =
    (if i < p_K p then
       (let cs2 = c_NTT_decode e (MultiplyNTTs (sc_s2 sc ! i) cHat);
            r0 = map (LowBits p) (polySub (w ! i) cs2)
        in if polyChknorm r0 (p_GAMMA2 p - p_BETA p) then None
           else
             (let ct0 = c_NTT_decode e (MultiplyNTTs (sc_t0 sc ! i) cHat)
              in if polyChknorm ct0 (p_GAMMA2 p) then None
                 else
                   (let (v, c) = polyMakeHint p (polyAdd r0 ct0) (w1 ! i)
                    in sign_hints e p sc cHat w w1 (i + 1) (h @ [v]) (cnt + c))))
     else Some (h, cnt))"
  by pat_completeness auto
termination
  by (relation "measure (\<lambda>(e, p, sc, cHat, w, w1, i, h, cnt). p_K p - i)") auto

definition sign_attempt ::
  "Crystals \<Rightarrow> MLDSAPrimitives \<Rightarrow> SignCtx \<Rightarrow> nat \<Rightarrow> attempt option" where
  "sign_attempt e p sc kappa =
    (let y = map (\<lambda>i. c_Z_decode e
                   (c_XOF256 e (sc_rhoprime sc) (js_and (int (kappa + i)) 0xff)
                      (js_sar (int (kappa + i)) 8))) [0 ..< p_L p];
         z = map (c_NTT_encode e) y;
         w = map (sign_w e p (sc_A sc) z) [0 ..< p_K p];
         w1 = map (map (HighBits p)) w;
         cTilde = c_shake256 e (p_C_TILDE_BYTES p) (sc_mu sc @ vec_encode (c_W1_encode e) w1)
     in case SampleInBall p (c_shake256_xof e cTilde) of
          None \<Rightarrow> None
        | Some c0 \<Rightarrow>
          (let cHat = c_NTT_encode e c0;
               cs1 = map (\<lambda>i. polyAdd (c_NTT_decode e (MultiplyNTTs (sc_s1 sc ! i) cHat)) (y ! i))
                       [0 ..< p_L p]
           in if list_ex (\<lambda>t. polyChknorm t (p_GAMMA1 p - p_BETA p)) cs1 then Some Rejected
              else
                (case sign_hints e p sc cHat w w1 0 [] 0 of
                   None \<Rightarrow> Some Rejected
                 | Some (h, cnt) \<Rightarrow>
                   if cnt > int (p_OMEGA p) then Some Rejected
                   else Some (Accepted (sigCoder_encode e p cTilde cs1 h)))))"

text \<open>\<^verbatim>\<open>main_loop: for (let kappa = 0; ; )\<close>. The loop has no exit but the \<^verbatim>\<open>return\<close> of an
  accepted pass; every pass advances \<open>kappa\<close> by \<open>L\<close>.\<close>

partial_function (option) sign_loop :: "(nat \<Rightarrow> attempt option) \<Rightarrow> nat \<Rightarrow> nat \<Rightarrow> bytes option" where
  "sign_loop body L' kappa =
    (case body kappa of
       None \<Rightarrow> None
     | Some Rejected \<Rightarrow> sign_loop body L' (kappa + L')
     | Some (Accepted res) \<Rightarrow> Some res)"

text \<open>\<^verbatim>\<open>internal.sign(msg, secretKey, signOpts)\<close>: \<open>Some (Inr sig)\<close> when it returns a signature,
  \<open>Some (Inl err)\<close> when it throws, \<open>None\<close> when it does not return.\<close>

definition internal_sign ::
  "Crystals \<Rightarrow> MLDSAPrimitives \<Rightarrow> bytes \<Rightarrow> bytes \<Rightarrow> SigOpts \<Rightarrow> bytes outcome" where
  "internal_sign e p msg secretKey signOpts =
    bind_r (sign_setup e p msg secretKey signOpts)
      (\<lambda>sc. map_option Inr (sign_loop (sign_attempt e p sc) (p_L p) 0))"

text \<open>The pass that a call makes at the counter \<open>kappa\<close>, should its loop get there.\<close>

definition sign_pass ::
  "Crystals \<Rightarrow> MLDSAPrimitives \<Rightarrow> bytes \<Rightarrow> bytes \<Rightarrow> SigOpts \<Rightarrow> nat \<Rightarrow> attempt option" where
  "sign_pass e p msg secretKey signOpts kappa =
    (case sign_setup e p msg secretKey signOpts of
       Some (Inr sc) \<Rightarrow> sign_attempt e p sc kappa
     | _ \<Rightarrow> None)"

section \<open>The memory of a signing call (ml-dsa.ts)\<close>

text \<open>A \<^verbatim>\<open>Uint8Array\<close> is a window on a buffer of bytes: two arrays may show the same bytes. An
  \<^verbatim>\<open>Int32Array\<close> of this library is always made whole, by \<^verbatim>\<open>newPoly\<close>, \<^verbatim>\<open>slice\<close>, \<^verbatim>\<open>map\<close> or
  a decoder, and is a buffer of its own. The memory maps the byte buffers and the
  \<^verbatim>\<open>Int32Array\<close>s to their contents, and knows the next free name of either kind.\<close>

record view =
  v_buf :: nat
  v_off :: nat
  v_len :: nat

record memory =
  m_bufs :: "nat \<Rightarrow> bytes"
  m_next :: nat
  m_polys :: "nat \<Rightarrow> poly"
  m_pnext :: nat

definition read_view :: "memory \<Rightarrow> view \<Rightarrow> bytes" where
  "read_view m v = take (v_len v) (drop (v_off v) (m_bufs m (v_buf v)))"

definition in_view :: "view \<Rightarrow> nat \<Rightarrow> bool" where
  "in_view v i = (v_off v \<le> i \<and> i < v_off v + v_len v)"

definition overlap :: "view \<Rightarrow> view \<Rightarrow> bool" where
  "overlap a b =
    (v_buf a = v_buf b \<and> v_off a < v_off b + v_len b \<and> v_off b < v_off a + v_len a)"

text \<open>\<^verbatim>\<open>v.subarray(off, off + len)\<close>: a window on the same buffer, cut to the array's end.\<close>

definition subarray :: "view \<Rightarrow> nat \<Rightarrow> nat \<Rightarrow> view" where
  "subarray v off len =
    \<lparr> v_buf = v_buf v, v_off = v_off v + min off (v_len v),
      v_len = min (off + len) (v_len v) - min off (v_len v) \<rparr>"

text \<open>A new \<^verbatim>\<open>Uint8Array\<close> with the given bytes, and a new \<^verbatim>\<open>Int32Array\<close> with the given
  coefficients.\<close>

definition alloc :: "memory \<Rightarrow> bytes \<Rightarrow> memory \<times> view" where
  "alloc m bs =
    (m\<lparr> m_bufs := (m_bufs m)(m_next m := bs), m_next := m_next m + 1 \<rparr>,
     \<lparr> v_buf = m_next m, v_off = 0, v_len = length bs \<rparr>)"

definition new_poly :: "memory \<Rightarrow> poly \<Rightarrow> memory \<times> nat" where
  "new_poly m c =
    (m\<lparr> m_polys := (m_polys m)(m_pnext m := c), m_pnext := m_pnext m + 1 \<rparr>, m_pnext m)"

fun new_polys :: "memory \<Rightarrow> poly list \<Rightarrow> memory \<times> nat list" where
  "new_polys m [] = (m, [])"
| "new_polys m (c # cs) =
    (let (m1, r) = new_poly m c; (m2, rs) = new_polys m1 cs in (m2, r # rs))"

text \<open>A function of the library that changes its first argument in place (\<^verbatim>\<open>NTT.encode\<close>,
  \<^verbatim>\<open>NTT.decode\<close>, \<^verbatim>\<open>polyAdd\<close>, \<^verbatim>\<open>polySub\<close>), applied to the array \<open>r\<close>, and to each array of
  a list in turn.\<close>

definition update_poly :: "memory \<Rightarrow> nat \<Rightarrow> (poly \<Rightarrow> poly) \<Rightarrow> memory" where
  "update_poly m r f = m\<lparr> m_polys := (m_polys m)(r := f (m_polys m r)) \<rparr>"

definition update_polys :: "memory \<Rightarrow> nat list \<Rightarrow> (poly \<Rightarrow> poly) \<Rightarrow> memory" where
  "update_polys m rs f = fold (\<lambda>r m'. update_poly m' r f) rs m"

text \<open>Modelled from the spec: \<^verbatim>\<open>cleanBytes\<close> of \<^verbatim>\<open>utils.ts\<close>, which is not among the files; it
  zeroes the arrays it is given, in place: a \<^verbatim>\<open>Uint8Array\<close>, or a list of \<^verbatim>\<open>Int32Array\<close>s.\<close>

definition cleanBytes :: "memory \<Rightarrow> view \<Rightarrow> memory" where
  "cleanBytes m v =
    m\<lparr> m_bufs := (m_bufs m)(v_buf v :=
         map (\<lambda>i. if in_view v i then 0 else m_bufs m (v_buf v) ! i)
           [0 ..< length (m_bufs m (v_buf v))]) \<rparr>"

definition clean_polys :: "memory \<Rightarrow> nat list \<Rightarrow> memory" where
  "clean_polys m rs = update_polys m rs (\<lambda>c. replicate (length c) 0)"

text \<open>A call that may change the memory: it ends with a result or with an error, in the
  memory it has reached, or does not end.\<close>

type_synonym 'a effect = "(memory \<times> (error + 'a)) option"

subsection \<open>The steps of \<^verbatim>\<open>internal.sign\<close> before its loop\<close>

text \<open>The matrix \<open>A\<close>: every \<^verbatim>\<open>RejNTTPoly\<close> returns a new array. Modelled from the spec: the
  XOF objects of \<^verbatim>\<open>_crystals.ts\<close> keep their state to themselves; they read their seed when
  they are made, and \<^verbatim>\<open>clean()\<close> reaches none of the arrays of the call.\<close>

function expandA_row_mem ::
  "Crystals \<Rightarrow> bytes \<Rightarrow> nat \<Rightarrow> nat \<Rightarrow> nat \<Rightarrow> memory \<Rightarrow> nat list \<Rightarrow> nat list effect" where
  "expandA_row_mem e rho L' i j m pv =
    (if j < L' then
       (case RejNTTPoly (c_XOF128 e rho j i) of
          None \<Rightarrow> None
        | Some (Inl err) \<Rightarrow> Some (m, Inl err)
        | Some (Inr aij) \<Rightarrow>
            (let (m1, r) = new_poly m aij in expandA_row_mem e rho L' i (j + 1) m1 (pv @ [r])))
     else Some (m, Inr pv))"
  by pat_completeness auto
termination
  by (relation "measure (\<lambda>(e, rho, L', i, j, m, pv). L' - j)") auto

function expandA_mem ::
  "Crystals \<Rightarrow> MLDSAPrimitives \<Rightarrow> bytes \<Rightarrow> memory \<Rightarrow> nat \<Rightarrow> nat list list \<Rightarrow>
    nat list list effect" where
  "expandA_mem e p rho m i A =
    (if i < p_K p then
       (case expandA_row_mem e rho (p_L p) i 0 m [] of
          None \<Rightarrow> None
        | Some (m1, Inl err) \<Rightarrow> Some (m1, Inl err)
        | Some (m1, Inr pv) \<Rightarrow> expandA_mem e p rho m1 (i + 1) (A @ [pv]))
     else Some (m, Inr A))"
  by pat_completeness auto
termination
  by (relation "measure (\<lambda>(e, p, rho, m, i, A). p_K p - i)") auto

text \<open>The arrays that the loop works on: the matrix, the three key vectors, \<open>mu\<close>,
  \<open>rhoprime\<close>, and the seed that \<^verbatim>\<open>XOF256(rhoprime, ...)\<close> has read.\<close>

record SignRefs =
  sr_A :: "nat list list"
  sr_s1 :: "nat list"
  sr_s2 :: "nat list"
  sr_t0 :: "nat list"
  sr_mu :: view
  sr_rhoprime :: view
  sr_x256 :: bytes

text \<open>From \<^verbatim>\<open>secretCoder.decode(secretKey)\<close> to \<^verbatim>\<open>XOF256(rhoprime, ZCoder.bytesLen)\<close>. The
  decoder hands out \<open>rho\<close>, \<open>K\<close> and \<open>tr\<close> as windows on the key (``rho, \_K, tr is subarray
  of secretKey, cannot clean'') and the three vectors as new arrays; the vectors are then
  transformed in place; \<open>mu\<close> is the caller's \<open>msg\<close> itself when \<^verbatim>\<open>externalMu\<close> is set, and
  a new digest otherwise.\<close>

definition sign_setup_mem ::
  "Crystals \<Rightarrow> MLDSAPrimitives \<Rightarrow> memory \<Rightarrow> view \<Rightarrow> view \<Rightarrow> SigOpts \<Rightarrow> SignRefs effect" where
  "sign_setup_mem e p m msg secretKey signOpts =
    (case secretCoder_decode e p (read_view m secretKey) of
       Inl err \<Rightarrow> Some (m, Inl err)
     | Inr (rho', K', tr', s1, s2, t0) \<Rightarrow>
       (let rho = subarray secretKey 0 32;
            K_w = subarray secretKey 32 32;
            tr = subarray secretKey 64 (p_TR_BYTES p);
            (m1, s1r) = new_polys m s1;
            (m2, s2r) = new_polys m1 s2;
            (m3, t0r) = new_polys m2 t0
        in case expandA_mem e p (read_view m3 rho) m3 0 [] of
             None \<Rightarrow> None
           | Some (m4, Inl err) \<Rightarrow> Some (m4, Inl err)
           | Some (m4, Inr Ar) \<Rightarrow>
             (let m5 = fold (\<lambda>i m'. update_poly m' (s1r ! i) (c_NTT_encode e)) [0 ..< p_L p] m4;
                  m6 = fold (\<lambda>i m'. update_poly (update_poly m' (s2r ! i) (c_NTT_encode e))
                                      (t0r ! i) (c_NTT_encode e)) [0 ..< p_K p] m5;
                  (m7, mu) =
                    (if o_externalMu signOpts then (m6, msg)
                     else alloc m6 (c_shake256 e (p_CRH_BYTES p)
                                      (read_view m6 tr @ read_view m6 msg)));
                  (m8, rnd) =
                    (case o_extraEntropy signOpts of
                       EntropyFalse \<Rightarrow> (fst (alloc m7 (replicate 32 0)), replicate 32 0)
                     | EntropyDefault \<Rightarrow> (fst (alloc m7 (c_randomBytes e 32)), c_randomBytes e 32)
                     | Entropy random \<Rightarrow> (m7, random))
              in if length rnd \<noteq> 32
                 then Some (m8, Inl (WrongLength ''extraEntropy'' 32 (length rnd)))
                 else
                   (let (m9, rhoprime) =
                          alloc m8 (c_shake256 e (p_CRH_BYTES p)
                                      (read_view m8 K_w @ rnd @ read_view m8 mu))
                    in if v_len rhoprime \<noteq> p_CRH_BYTES p
                       then Some (m9, Inl (WrongLength ''Uint8Array'' (p_CRH_BYTES p)
                                             (v_len rhoprime)))
                       else Some (m9, Inr \<lparr> sr_A = Ar, sr_s1 = s1r, sr_s2 = s2r, sr_t0 = t0r,
                                    sr_mu = mu, sr_rhoprime = rhoprime,
                                    sr_x256 = read_view m9 rhoprime \<rparr>)))))"

subsection \<open>One pass of \<^verbatim>\<open>main_loop\<close> on the memory\<close>

text \<open>Row \<open>i\<close> of \<open>w\<close>: \<^verbatim>\<open>polyAdd(wi, MultiplyNTTs(A[i][j], z[j]))\<close> for \<open>j < L\<close>. The product is a
  new array; the sum is written into \<open>wi\<close>.\<close>

function sign_w_row_mem :: "nat \<Rightarrow> memory \<Rightarrow> nat list \<Rightarrow> nat list \<Rightarrow> nat \<Rightarrow> nat \<Rightarrow> memory" where
  "sign_w_row_mem L' m Arow z wi j =
    (if j < L' then
       (let (m1, c) = new_poly m (MultiplyNTTs (m_polys m (Arow ! j)) (m_polys m (z ! j)));
            m2 = update_poly m1 wi (\<lambda>a. polyAdd a (m_polys m1 c))
        in sign_w_row_mem L' m2 Arow z wi (j + 1))
     else m)"
  by pat_completeness auto
termination
  by (relation "measure (\<lambda>(L', m, Arow, z, wi, j). L' - j)") auto

function sign_w_mem ::
  "Crystals \<Rightarrow> MLDSAPrimitives \<Rightarrow> memory \<Rightarrow> nat list list \<Rightarrow> nat list \<Rightarrow> nat \<Rightarrow> nat list \<Rightarrow>
    memory \<times> nat list" where
  "sign_w_mem e p m A z i w =
    (if i < p_K p then
       (let (m1, wi) = new_poly m (newPoly N);
            m2 = sign_w_row_mem (p_L p) m1 (A ! i) z wi 0;
            m3 = update_poly m2 wi (c_NTT_decode e)
        in sign_w_mem e p m3 A z (i + 1) (w @ [wi]))
     else (m, w))"
  by pat_completeness auto
termination
  by (relation "measure (\<lambda>(e, p, m, A, z, i, w). p_K p - i)") auto

text \<open>The first loop of checks: \<^verbatim>\<open>polyAdd(NTT.decode(cs1[i]), y[i])\<close> in place, and
  \<^verbatim>\<open>continue main_loop\<close> (\<open>False\<close>) when the norm is too large.\<close>

function sign_z_mem ::
  "Crystals \<Rightarrow> MLDSAPrimitives \<Rightarrow> memory \<Rightarrow> nat list \<Rightarrow> nat list \<Rightarrow> nat \<Rightarrow> memory \<times> bool" where
  "sign_z_mem e p m cs1 y i =
    (if i < p_L p then
       (let m1 = update_poly m (cs1 ! i) (c_NTT_decode e);
            m2 = update_poly m1 (cs1 ! i) (\<lambda>a. polyAdd a (m_polys m1 (y ! i)))
        in if polyChknorm (m_polys m2 (cs1 ! i)) (p_GAMMA1 p - p_BETA p) then (m2, False)
           else sign_z_mem e p m2 cs1 y (i + 1))
     else (m, True))"
  by pat_completeness auto
termination
  by (relation "measure (\<lambda>(e, p, m, cs1, y, i). p_L p - i)") auto

text \<open>The second loop: \<open>cs2\<close>, \<open>r0\<close>, \<open>ct0\<close> and the hint of row \<open>i\<close>. \<^verbatim>\<open>polySub(w[i], cs2)\<close>
  writes into \<open>w[i]\<close>, \<^verbatim>\<open>polyAdd(r0, ct0)\<close> into \<open>r0\<close>; \<open>None\<close> is \<^verbatim>\<open>continue main_loop\<close>.\<close>

function sign_hints_mem ::
  "Crystals \<Rightarrow> MLDSAPrimitives \<Rightarrow> memory \<Rightarrow> SignRefs \<Rightarrow> nat \<Rightarrow> nat list \<Rightarrow> nat list \<Rightarrow> nat \<Rightarrow>
    nat list \<Rightarrow> int \<Rightarrow> memory \<times> (nat list \<times> int) option" where
  "sign_hints_mem e p m sr cHat w w1 i h cnt =
    (if i < p_K p then
       (let (m1, cs2) = new_poly m (MultiplyNTTs (m_polys m (sr_s2 sr ! i)) (m_polys m cHat));
            m2 = update_poly m1 cs2 (c_NTT_decode e);
            m3 = update_poly m2 (w ! i) (\<lambda>a. polySub a (m_polys m2 cs2));
            (m4, r0) = new_poly m3 (map (LowBits p) (m_polys m3 (w ! i)))
        in if polyChknorm (m_polys m4 r0) (p_GAMMA2 p - p_BETA p) then (m4, None)
           else
             (let (m5, ct0) =
                    new_poly m4 (MultiplyNTTs (m_polys m4 (sr_t0 sr ! i)) (m_polys m4 cHat));
                  m6 = update_poly m5 ct0 (c_NTT_decode e)
              in if polyChknorm (m_polys m6 ct0) (p_GAMMA2 p) then (m6, None)
                 else
                   (let m7 = update_poly m6 r0 (\<lambda>a. polyAdd a (m_polys m6 ct0));
                        (v, c) = polyMakeHint p (m_polys m7 r0) (m_polys m7 (w1 ! i));
                        (m8, hv) = new_poly m7 v
                    in sign_hints_mem e p m8 sr cHat w w1 (i + 1) (h @ [hv]) (cnt + c))))
     else (m, Some (h, cnt)))"
  by pat_completeness auto
termination
  by (relation "measure (\<lambda>(e, p, m, sr, cHat, w, w1, i, h, cnt). p_K p - i)") auto

text \<open>The body of \<^verbatim>\<open>main_loop\<close>, statement by statement. A rejected pass leaves its arrays
  behind. An accepted pass encodes the signature into a new array and then runs
  \<^verbatim>\<open>cleanBytes(cTilde, cs1, h, cHat, w1, w, z, y, rhoprime, mu, s1, s2, t0, ...A)\<close>.\<close>

definition sign_attempt_mem ::
  "Crystals \<Rightarrow> MLDSAPrimitives \<Rightarrow> SignRefs \<Rightarrow> memory \<Rightarrow> nat \<Rightarrow> (memory \<times> attempt) option" where
  "sign_attempt_mem e p sr m kappa =
    (let (m1, y) = new_polys m
           (map (\<lambda>i. c_Z_decode e
                   (c_XOF256 e (sr_x256 sr) (js_and (int (kappa + i)) 0xff)
                      (js_sar (int (kappa + i)) 8))) [0 ..< p_L p]);
         (m2, z) = new_polys m1 (map (m_polys m1) y);
         m3 = update_polys m2 z (c_NTT_encode e);
         (m4, w) = sign_w_mem e p m3 (sr_A sr) z 0 [];
         (m5, w1) = new_polys m4 (map (\<lambda>r. map (HighBits p) (m_polys m4 r)) w);
         (m6, enc) = alloc m5 (vec_encode (c_W1_encode e) (map (m_polys m5) w1));
         (m7, cTilde) =
           alloc m6 (c_shake256 e (p_C_TILDE_BYTES p)
                       (read_view m6 (sr_mu sr) @ read_view m6 enc))
     in case SampleInBall p (c_shake256_xof e (read_view m7 cTilde)) of
          None \<Rightarrow> None
        | Some c0 \<Rightarrow>
          (let (m8, cHat) = new_poly m7 c0;
               m9 = update_poly m8 cHat (c_NTT_encode e);
               (m10, cs1) = new_polys m9
                 (map (\<lambda>r. MultiplyNTTs (m_polys m9 r) (m_polys m9 cHat)) (sr_s1 sr));
               (m11, ok) = sign_z_mem e p m10 cs1 y 0
           in if \<not> ok then Some (m11, Rejected)
              else
                (case sign_hints_mem e p m11 sr cHat w w1 0 [] 0 of
                   (m12, None) \<Rightarrow> Some (m12, Rejected)
                 | (m12, Some (h, cnt)) \<Rightarrow>
                     if cnt > int (p_OMEGA p) then Some (m12, Rejected)
                     else
                       (let (m13, res) =
                              alloc m12 (sigCoder_encode e p (read_view m12 cTilde)
                                           (map (m_polys m12) cs1) (map (m_polys m12) h));
                            m14 = cleanBytes m13 cTilde;
                            m15 = clean_polys m14 cs1;
                            m16 = clean_polys m15 h;
                            m17 = clean_polys m16 [cHat];
                            m18 = clean_polys m17 w1;
                            m19 = clean_polys m18 w;
                            m20 = clean_polys m19 z;
                            m21 = clean_polys m20 y;
                            m22 = cleanBytes m21 (sr_rhoprime sr);
                            m23 = cleanBytes m22 (sr_mu sr);
                            m24 = clean_polys m23 (sr_s1 sr);
                            m25 = clean_polys m24 (sr_s2 sr);
                            m26 = clean_polys m25 (sr_t0 sr);
                            m27 = fold (\<lambda>row m'. clean_polys m' row) (sr_A sr) m26
                        in Some (m27, Accepted (read_view m27 res))))))"

text \<open>\<^verbatim>\<open>main_loop\<close> and \<^verbatim>\<open>internal.sign\<close> on the memory.\<close>

partial_function (option) sign_loop_mem ::
  "(memory \<Rightarrow> nat \<Rightarrow> (memory \<times> attempt) option) \<Rightarrow> nat \<Rightarrow> nat \<Rightarrow> memory \<Rightarrow>
    (memory \<times> bytes) option" where
  "sign_loop_mem pass L' kappa m =
    (case pass m kappa of
       None \<Rightarrow> None
     | Some (m', Rejected) \<Rightarrow> sign_loop_mem pass L' (kappa + L') m'
     | Some (m', Accepted res) \<Rightarrow> Some (m', res))"

definition internal_sign_mem ::
  "Crystals \<Rightarrow> MLDSAPrimitives \<Rightarrow> memory \<Rightarrow> view \<Rightarrow> view \<Rightarrow> SigOpts \<Rightarrow> bytes effect" where
  "internal_sign_mem e p m msg secretKey signOpts =
    (case sign_setup_mem e p m msg secretKey signOpts of
       None \<Rightarrow> None
     | Some (m1, Inl err) \<Rightarrow> Some (m1, Inl err)
     | Some (m1, Inr sr) \<Rightarrow>
         map_option (\<lambda>(m', res). (m', Inr res))
           (sign_loop_mem (sign_attempt_mem e p sr) (p_L p) 0 m1))"

text \<open>Two relations for reasoning about the steps: \<open>m'\<close> has the byte buffers of \<open>m\<close>
  untouched and maybe more of them; and every array of a list exists in \<open>m\<close> and holds the
  zero polynomial.\<close>

definition ext :: "memory \<Rightarrow> memory \<Rightarrow> bool" where
  "ext m m' =
    (m_next m \<le> m_next m' \<and> m_pnext m \<le> m_pnext m' \<and>
     (\<forall>b. b < m_next m \<longrightarrow> m_bufs m' b = m_bufs m b))"

definition zero_at :: "memory \<Rightarrow> nat list \<Rightarrow> bool" where
  "zero_at m rs = list_all (\<lambda>r. r < m_pnext m \<and> m_polys m r = newPoly N) rs"

text \<open>What the caller sees of a call that ends: its result, and the bytes of an array of
  theirs afterwards.\<close>

definition seen_after :: "view \<Rightarrow> 'a effect \<Rightarrow> (bytes \<times> (error + 'a)) option" where
  "seen_after v c = map_option (\<lambda>(m', r). (read_view m' v, r)) c"

text \<open>Collaborators to run the signer on: all zeros, but the mask stream gives polynomials
  outside the norm bound as long as its counter's high byte is below \<open>d\<close>.\<close>

definition delay_crystals :: "int \<Rightarrow> Crystals" where
  "delay_crystals d = zero_crystals
     \<lparr> c_XOF256 := (\<lambda>seed x y. if y < d then [1] else []),
       c_Z_decode := (\<lambda>b. if b = [1] then replicate N (2 ^ 17) else newPoly N) \<rparr>"

definition example_memory :: memory where
  "example_memory =
    \<lparr> m_bufs = (\<lambda>b. if b = 0 then replicate 2560 1 else []), m_next = 1,
      m_polys = (\<lambda>r. []), m_pnext = 0 \<rparr>"

definition key_view :: view where
  "key_view = \<lparr> v_buf = 0, v_off = 0, v_len = 2560 \<rparr>"

definition key_head :: view where
  "key_head = \<lparr> v_buf = 0, v_off = 0, v_len = 64 \<rparr>"

definition mu_opts :: SigOpts where
  "mu_opts = \<lparr> o_extraEntropy = EntropyFalse, o_externalMu = True, o_context = [] \<rparr>"

definition plain_opts :: SigOpts where
  "plain_opts = \<lparr> o_extraEntropy = EntropyFalse, o_externalMu = False, o_context = [] \<rparr>"

text \<open>The state at the loop's entry when every key polynomial is zero, and inputs to run the
  signer on.\<close>

definition zero_ctx :: "poly list list \<Rightarrow> bytes \<Rightarrow> SignCtx" where
  "zero_ctx A mu = \<lparr> sc_A = A, sc_s1 = replicate 4 (newPoly N), sc_s2 = replicate 4 (newPoly N),
     sc_t0 = replicate 4 (newPoly N), sc_mu = mu, sc_rhoprime = replicate 64 0 \<rparr>"

definition example_key :: bytes where
  "example_key = replicate 2560 1"

text \<open>Collaborators whose XOF128 returns blocks of one byte.\<close>

definition unaligned_crystals :: Crystals where
  "unaligned_crystals = zero_crystals \<lparr> c_XOF128 := (\<lambda>seed x y n. [0]) \<rparr>"

chapter \<open>Properties\<close>

section \<open>The parameter lookup\<close>

lemma getParams_level_44:
  assumes "2 \<le> T" "T \<le> N'" "N' \<le> 6" "normalizeSecurityLevel lv = 44"
  shows "good_params T N' (getParams T N' lv)"
proof -
  from assms have "N' \<in> {2, 3, 4, 5, 6}" by auto
  moreover from assms have "T \<in> {2, 3, 4, 5, 6}" by auto
  ultimately show ?thesis
    using assms
    by (auto simp: getParams_def good_params_def ALL_PARAMS_def PARAMS_44_def MAX_PARTIES_def)
qed

lemma getParams_level_65:
  assumes "2 \<le> T" "T \<le> N'" "N' \<le> 6" "normalizeSecurityLevel lv = 65"
  shows "good_params T N' (getParams T N' lv)"
proof -
  from assms have "N' \<in> {2, 3, 4, 5, 6}" by auto
  moreover from assms have "T \<in> {2, 3, 4, 5, 6}" by auto
  ultimately show ?thesis
    using assms
    by (auto simp: getParams_def good_params_def ALL_PARAMS_def PARAMS_65_def MAX_PARTIES_def)
qed

lemma getParams_level_87:
  assumes "2 \<le> T" "T \<le> N'" "N' \<le> 6" "normalizeSecurityLevel lv = 87"
  shows "good_params T N' (getParams T N' lv)"
proof -
  from assms have "N' \<in> {2, 3, 4, 5, 6}" by auto
  moreover from assms have "T \<in> {2, 3, 4, 5, 6}" by auto
  ultimately show ?thesis
    using assms
    by (auto simp: getParams_def good_params_def ALL_PARAMS_def PARAMS_87_def MAX_PARTIES_def)
qed

lemma normalize_in_levels:
  "lv \<in> security_levels \<longleftrightarrow> normalizeSecurityLevel lv \<in> {44, 65, 87}"
  by (auto simp: security_levels_def normalizeSecurityLevel_def)

lemma getParams_bad_level:
  assumes "lv \<notin> security_levels"
  shows "getParams T N' lv = Inl (UnsupportedSecurityLevel lv)"
proof -
  from assms have "normalizeSecurityLevel lv \<notin> {44, 65, 87}"
    by (simp add: normalize_in_levels)
  then have "map_of ALL_PARAMS (normalizeSecurityLevel lv) = None"
    by (simp add: ALL_PARAMS_def)
  then show ?thesis by (simp add: getParams_def)
qed

lemma getParams_bad_TN:
  assumes "T < 2 \<or> T > N' \<or> N' < 2 \<or> N' > 6"
  shows "\<exists>e. getParams T N' lv = Inl e"
proof (cases "map_of ALL_PARAMS (normalizeSecurityLevel lv)")
  case None
  then show ?thesis by (simp add: getParams_def)
next
  case (Some table)
  with assms show ?thesis
    by (auto simp: getParams_def MAX_PARTIES_def)
qed

text \<open>C8: \<open>getParams\<close> throws for \<open>T < 2\<close>, \<open>T > N\<close>, \<open>N < 2\<close>, \<open>N > 6\<close> and for a
  security level outside \<open>{44, 65, 87, 128, 192, 256}\<close>; for every valid triple it returns
  parameters with \<open>nu = 3.0\<close>, \<open>K_iter\<close> between 2 and 100 and \<open>r < rPrime\<close>.\<close>

theorem getParams_spec:
  "(T < 2 \<or> T > N' \<or> N' < 2 \<or> N' > 6 \<or> lv \<notin> security_levels
      \<longrightarrow> (\<exists>e. getParams T N' lv = Inl e)) \<and>
   (2 \<le> T \<and> T \<le> N' \<and> N' \<le> 6 \<and> lv \<in> security_levels
      \<longrightarrow> (\<exists>p. getParams T N' lv = Inr p \<and> tp_nu p = 3 \<and> 2 \<le> tp_K_iter p \<and>
               tp_K_iter p \<le> 100 \<and> tp_r p < tp_rPrime p))"
proof (intro conjI impI)
  assume "T < 2 \<or> T > N' \<or> N' < 2 \<or> N' > 6 \<or> lv \<notin> security_levels"
  then show "\<exists>e. getParams T N' lv = Inl e"
    using getParams_bad_level [of lv T N'] getParams_bad_TN [of T N' lv] by blast
next
  assume a: "2 \<le> T \<and> T \<le> N' \<and> N' \<le> 6 \<and> lv \<in> security_levels"
  then have "normalizeSecurityLevel lv \<in> {44, 65, 87}"
    by (simp add: normalize_in_levels)
  with a have "good_params T N' (getParams T N' lv)"
    using getParams_level_44 [of T N' lv] getParams_level_65 [of T N' lv]
      getParams_level_87 [of T N' lv] by auto
  then show "\<exists>p. getParams T N' lv = Inr p \<and> tp_nu p = 3 \<and> 2 \<le> tp_K_iter p \<and>
               tp_K_iter p \<le> 100 \<and> tp_r p < tp_rPrime p"
    by (auto simp: good_params_def split: sum.splits)
qed

theorem getParams_spec_witness:
  "(\<exists>e. getParams 1 3 44 = Inl e) \<and> (\<exists>e. getParams 2 3 99 = Inl e) \<and>
   (\<exists>p. getParams 2 3 192 = Inr p \<and> tp_nu p = 3 \<and> 2 \<le> tp_K_iter p \<and>
        tp_K_iter p \<le> 100 \<and> tp_r p < tp_rPrime p)"
proof -
  have a: "\<exists>e. getParams 1 3 44 = Inl e"
    using getParams_spec [of 1 3 44] by simp
  have b: "\<exists>e. getParams 2 3 99 = Inl e"
    using getParams_spec [of 2 3 99] by (simp add: security_levels_def)
  have c: "\<exists>p. getParams 2 3 192 = Inr p \<and> tp_nu p = 3 \<and> 2 \<le> tp_K_iter p \<and>
        tp_K_iter p \<le> 100 \<and> tp_r p < tp_rPrime p"
    using getParams_spec [of 2 3 192] by (simp add: security_levels_def)
  from a b c show ?thesis by blast
qed

section \<open>Decomposition\<close>

lemma new_prims44: "new_MLDSAPrimitives opts44 = Inr prims44"
  by (simp add: new_MLDSAPrimitives_def opts44_def prims44_def)

lemma int32_id: "- (2 ^ 31) \<le> x \<Longrightarrow> x < 2 ^ 31 \<Longrightarrow> int32 x = x"
  unfolding int32_def by (simp add: signed_take_bit_int_eq_self)

lemma mod_pos_range: "0 < m \<Longrightarrow> 0 \<le> mod_pos a m \<and> mod_pos a m < m"
  by (simp add: mod_pos_def)

lemma smod_bounds:
  assumes "0 < m"
  shows "2 * smod a m \<le> m" and "- m < 2 * smod a m" and "0 \<le> a \<Longrightarrow> smod a m \<le> a"
proof -
  define x where "x = a mod m"
  have x: "0 \<le> x" "x < m" using assms by (simp_all add: x_def)
  have sm: "smod a m = (if 2 * x > m then x - m else x)"
    by (simp add: smod_def mod_pos_def Let_def x_def)
  show "2 * smod a m \<le> m" using x by (simp add: sm)
  show "- m < 2 * smod a m" using x by (simp add: sm)
  show "smod a m \<le> a" if "0 \<le> a"
  proof -
    have "x \<le> a" using that assms by (simp add: x_def zmod_le_nonneg_dividend)
    with x show ?thesis by (simp add: sm)
  qed
qed

lemma smod_cong: "m dvd (a - smod a m)"
proof -
  have "m dvd (a - a mod m)" by (simp add: dvd_minus_mod)
  moreover have "m dvd (a - a mod m) + m" by (simp add: dvd_minus_mod)
  ultimately show ?thesis
    by (auto simp: smod_def mod_pos_def Let_def algebra_simps)
qed

lemma new_GAMMA2:
  assumes "new_MLDSAPrimitives opts = Inr p"
  shows "p_GAMMA2 p = 95232 \<or> p_GAMMA2 p = 261888"
  using assms
  by (auto simp: new_MLDSAPrimitives_def GAMMA2_1_def GAMMA2_2_def Q_def split: if_splits)

text \<open>C4: for every integer \<open>r\<close>, \<open>decompose r\<close> returns \<open>(r1, r0)\<close> with
  \<open>mod r = r1 * (2 * GAMMA2) + r0\<close> modulo \<open>Q\<close> and \<open>r0\<close> in \<open>(-GAMMA2, GAMMA2]\<close>, except
  when \<open>mod r\<close> minus the centred low part is \<open>Q - 1\<close>: then \<open>r1 = 0\<close> and the low part
  returned is one less.\<close>

theorem decompose_spec:
  assumes "new_MLDSAPrimitives opts = Inr p"
  shows "case decompose p r of (r1, r0) \<Rightarrow>
     (if mod_pos r Q - smod (mod_pos r Q) (2 * p_GAMMA2 p) = Q - 1
      then r1 = 0 \<and> r0 = smod (mod_pos r Q) (2 * p_GAMMA2 p) - 1
      else mod_pos r Q = r1 * (2 * p_GAMMA2 p) + r0 \<and> - p_GAMMA2 p < r0 \<and> r0 \<le> p_GAMMA2 p)
     \<and> (mod_pos r Q - (r1 * (2 * p_GAMMA2 p) + r0)) mod Q = 0"
proof -
  define g where "g = p_GAMMA2 p"
  define rPlus where "rPlus = mod_pos r Q"
  define s where "s = smod rPlus (2 * g)"
  have g: "g = 95232 \<or> g = 261888"
    using new_GAMMA2 [OF assms] by (simp add: g_def)
  then have gpos: "0 < 2 * g" by auto
  have rP: "0 \<le> rPlus" "rPlus < Q"
    using mod_pos_range [of Q r] by (simp_all add: rPlus_def Q_def)
  have s_hi: "s \<le> g" using smod_bounds(1) [OF gpos, of rPlus] by (simp add: s_def)
  have s_lo: "- g < s" using smod_bounds(2) [OF gpos, of rPlus] by (simp add: s_def)
  have s_le: "s \<le> rPlus" using smod_bounds(3) [OF gpos rP(1)] by (simp add: s_def)
  have dv: "2 * g dvd rPlus - s" unfolding s_def by (rule smod_cong)
  have s32: "int32 s = s"
    using g s_hi s_lo by (intro int32_id) auto
  show ?thesis
  proof (cases "rPlus - s = Q - 1")
    case True
    have "int32 (s - 1) = s - 1"
      using g s_hi s_lo by (intro int32_id) auto
    moreover have "int32 0 = 0" by (simp add: int32_def)
    ultimately have d: "decompose p r = (0, s - 1)"
      using True s32
      by (simp add: decompose_def Let_def rPlus_def [symmetric] g_def [symmetric] s_def [symmetric])
    from True have "rPlus - (s - 1) = Q" by linarith
    then have "(rPlus - (0 * (2 * g) + (s - 1))) mod Q = 0" by simp
    with True have "(if rPlus - s = Q - 1 then (0::int) = 0 \<and> s - 1 = s - 1
        else rPlus = 0 * (2 * g) + (s - 1) \<and> - g < s - 1 \<and> s - 1 \<le> g) \<and>
        (rPlus - (0 * (2 * g) + (s - 1))) mod Q = 0"
      by simp
    then show ?thesis
      unfolding d prod.case rPlus_def s_def g_def .
  next
    case False
    define r1 where "r1 = (rPlus - s) div (2 * g)"
    have eq: "r1 * (2 * g) = rPlus - s"
      using dv by (simp add: r1_def)
    have "0 \<le> rPlus - s" "rPlus - s < 2 ^ 31"
      using rP s_lo s_hi s_le g by (auto simp: Q_def)
    then have r1_pos: "0 \<le> r1"
      using gpos by (simp add: r1_def pos_imp_zdiv_nonneg_iff)
    then have "r1 \<le> rPlus - s"
      using eq g by auto
    with r1_pos \<open>rPlus - s < 2 ^ 31\<close> have "int32 r1 = r1"
      by (intro int32_id) auto
    then have d: "decompose p r = (r1, s)"
      using False s32
      by (simp add: decompose_def Let_def rPlus_def [symmetric] g_def [symmetric]
          s_def [symmetric] r1_def [symmetric])
    from eq have "rPlus = r1 * (2 * g) + s" by simp
    with False s_lo s_hi have "(if rPlus - s = Q - 1 then r1 = 0 \<and> s = s - 1
        else rPlus = r1 * (2 * g) + s \<and> - g < s \<and> s \<le> g) \<and>
        (rPlus - (r1 * (2 * g) + s)) mod Q = 0"
      by simp
    then show ?thesis
      unfolding d prod.case rPlus_def s_def g_def .
  qed
qed

theorem decompose_spec_witness:
  "new_MLDSAPrimitives opts44 = Inr prims44 \<and>
   (case decompose prims44 95233 of (r1, r0) \<Rightarrow>
      95233 = r1 * 190464 + r0 \<and> - 95232 < r0 \<and> r0 \<le> 95232) \<and>
   (case decompose prims44 8380416 of (r1, r0) \<Rightarrow> r1 = 0 \<and> r0 = - 1)"
proof -
  have n: "new_MLDSAPrimitives opts44 = Inr prims44" by (rule new_prims44)
  have g: "p_GAMMA2 prims44 = 95232" by (simp add: prims44_def GAMMA2_1_def Q_def)
  have a: "smod 95233 190464 = - 95231" "smod 8380416 190464 = 0"
    by (simp_all add: smod_def mod_pos_def)
  have q: "mod_pos 95233 8380417 = 95233" "mod_pos 8380416 8380417 = 8380416"
    by (simp_all add: mod_pos_def)
  have "case decompose prims44 95233 of (r1, r0) \<Rightarrow>
      95233 = r1 * 190464 + r0 \<and> - 95232 < r0 \<and> r0 \<le> 95232"
    using decompose_spec [OF n, of 95233]
    by (auto simp: g a q Q_def split: prod.splits)
  moreover have "case decompose prims44 8380416 of (r1, r0) \<Rightarrow> r1 = 0 \<and> r0 = - 1"
    using decompose_spec [OF n, of 8380416]
    by (auto simp: g a q Q_def split: prod.splits)
  ultimately show ?thesis using n by simp
qed

section \<open>Hint decoding\<close>

declare hint_row.simps [simp del] hint_rows.simps [simp del] hint_tail.simps [simp del]

lemma byte_lt_N: "unat (b :: byte) < N"
  using unsigned_less [of b, where 'a = nat] by (simp add: N_def)

lemma hint_row_end: "\<not> j < c \<Longrightarrow> hint_row buf k c j hi = Some hi"
  by (subst hint_row.simps) (simp only: if_False)

lemma hint_row_bad:
  "j < c \<Longrightarrow> j > k \<and> unat (buf ! j) \<le> unat (buf ! (j - 1)) \<Longrightarrow> hint_row buf k c j hi = None"
  by (subst hint_row.simps) (simp only: if_True simp_thms)

lemma hint_row_ok:
  "j < c \<Longrightarrow> \<not> (j > k \<and> unat (buf ! j) \<le> unat (buf ! (j - 1))) \<Longrightarrow>
    hint_row buf k c j hi = hint_row buf k c (j + 1) (hi[unat (buf ! j) := 1])"
  by (subst hint_row.simps) (simp only: if_True if_False simp_thms)

lemma hint_row_None:
  assumes "k \<le> j"
  shows "hint_row buf k c j hi = None \<longleftrightarrow>
    (\<exists>j' \<in> {j ..< c}. j' > k \<and> unat (buf ! j') \<le> unat (buf ! (j' - 1)))"
  using assms
proof (induction buf k c j hi rule: hint_row.induct)
  case (1 buf k c j hi)
  show ?case
  proof (cases "j < c")
    case False
    then show ?thesis by (simp add: hint_row_end)
  next
    case True
    show ?thesis
    proof (cases "j > k \<and> unat (buf ! j) \<le> unat (buf ! (j - 1))")
      case bad: True
      with True have "hint_row buf k c j hi = None"
        by (rule hint_row_bad)
      moreover from bad True have "\<exists>j' \<in> {j ..< c}. j' > k \<and> unat (buf ! j') \<le> unat (buf ! (j' - 1))"
        by (intro bexI [of _ j]) auto
      ultimately show ?thesis by simp
    next
      case ok: False
      have split: "{j ..< c} = insert j {j + 1 ..< c}" using True by auto
      from True ok have "hint_row buf k c j hi = hint_row buf k c (j + 1) (hi[unat (buf ! j) := 1])"
        by (rule hint_row_ok)
      also have "\<dots> = None \<longleftrightarrow>
          (\<exists>j' \<in> {j + 1 ..< c}. j' > k \<and> unat (buf ! j') \<le> unat (buf ! (j' - 1)))"
        using "1.IH" [OF True ok] "1.prems" by simp
      finally show ?thesis using ok unfolding split by auto
    qed
  qed
qed

lemma hint_row_Some:
  assumes "hint_row buf k c j hi = Some hi'" "length hi = N"
  shows "length hi' = N \<and>
    (\<forall>x < N. hi' ! x = (if \<exists>j' \<in> {j ..< c}. unat (buf ! j') = x then 1 else hi ! x))"
  using assms
proof (induction buf k c j hi rule: hint_row.induct)
  case (1 buf k c j hi)
  show ?case
  proof (cases "j < c")
    case False
    with "1.prems" show ?thesis by (simp add: hint_row_end)
  next
    case True
    have ok: "\<not> (j > k \<and> unat (buf ! j) \<le> unat (buf ! (j - 1)))"
    proof
      assume "j > k \<and> unat (buf ! j) \<le> unat (buf ! (j - 1))"
      with True have "hint_row buf k c j hi = None" by (rule hint_row_bad)
      with "1.prems" show False by simp
    qed
    with True "1.prems" have rec: "hint_row buf k c (j + 1) (hi[unat (buf ! j) := 1]) = Some hi'"
      by (simp add: hint_row_ok)
    have split: "{j ..< c} = insert j {j + 1 ..< c}" using True by auto
    from "1.IH" [OF True ok rec] "1.prems"(2)
    have IH: "length hi' = N" "\<forall>x<N. hi' ! x =
       (if \<exists>j'\<in>{j + 1..<c}. unat (buf ! j') = x then 1 else hi[unat (buf ! j) := 1] ! x)"
      by simp_all
    show ?thesis
      unfolding split using IH "1.prems"(2) byte_lt_N [of "buf ! j"]
      by (auto simp: nth_list_update)
  qed
qed


lemma hint_row_spec:
  assumes "k = prev_cursor omega buf i" "c = cursor omega buf i"
  shows "hint_row buf k c k (newPoly N) =
    (if \<forall>j \<in> {k <..< c}. unat (buf ! (j - 1)) < unat (buf ! j)
     then Some (spec_hint_row omega buf i) else None)"
proof (cases "hint_row buf k c k (newPoly N)")
  case None
  then have "\<exists>j' \<in> {k ..< c}. j' > k \<and> unat (buf ! j') \<le> unat (buf ! (j' - 1))"
    by (simp add: hint_row_None)
  then have "\<not> (\<forall>j \<in> {k <..< c}. unat (buf ! (j - 1)) < unat (buf ! j))"
    by (auto simp: not_less)
  with None show ?thesis by simp
next
  case (Some hi')
  then have "\<not> (\<exists>j' \<in> {k ..< c}. j' > k \<and> unat (buf ! j') \<le> unat (buf ! (j' - 1)))"
    using hint_row_None [of k k buf c "newPoly N"] by simp
  then have ok: "\<forall>j \<in> {k <..< c}. unat (buf ! (j - 1)) < unat (buf ! j)"
    by (auto simp: not_le)
  have "length (newPoly N) = N" by (simp add: newPoly_def)
  from hint_row_Some [OF Some this]
  have len: "length hi' = N"
    and nth: "\<And>x. x < N \<Longrightarrow> hi' ! x = (if \<exists>j' \<in> {k ..< c}. unat (buf ! j') = x then 1 else 0)"
    by (simp_all add: newPoly_def)
  have "hi' = spec_hint_row omega buf i"
    by (rule nth_equalityI) (simp_all add: len nth spec_hint_row_def assms)
  with Some ok show ?thesis by simp
qed

lemma hint_rows_end: "\<not> i < K' \<Longrightarrow> hint_rows omega K' buf i k h = Some (k, h)"
  by (subst hint_rows.simps) (simp only: if_False)

lemma hint_rows_bad:
  "i < K' \<Longrightarrow> unat (buf ! (omega + i)) < k \<or> unat (buf ! (omega + i)) > omega \<Longrightarrow>
    hint_rows omega K' buf i k h = None"
  by (subst hint_rows.simps) (simp only: if_True simp_thms)

lemma hint_rows_ok:
  "i < K' \<Longrightarrow> \<not> (unat (buf ! (omega + i)) < k \<or> unat (buf ! (omega + i)) > omega) \<Longrightarrow>
    hint_rows omega K' buf i k h =
      (case hint_row buf k (unat (buf ! (omega + i))) k (newPoly N) of
         None \<Rightarrow> None
       | Some hi \<Rightarrow> hint_rows omega K' buf (i + 1) (unat (buf ! (omega + i))) (h @ [hi]))"
  by (subst hint_rows.simps) (simp only: if_True if_False simp_thms)

lemma hint_rows_spec:
  assumes "k = prev_cursor omega buf i" "i \<le> K'"
  shows "hint_rows omega K' buf i k h =
    (if \<forall>i' \<in> {i ..< K'}. row_ok omega buf i'
     then Some (prev_cursor omega buf K', h @ map (spec_hint_row omega buf) [i ..< K'])
     else None)"
  using assms
proof (induction omega K' buf i k h rule: hint_rows.induct)
  case (1 omega K' buf i k h)
  define c where "c = cursor omega buf i"
  have c: "unat (buf ! (omega + i)) = c" by (simp add: c_def cursor_def)
  show ?case
  proof (cases "i < K'")
    case False
    with "1.prems" have "i = K'" by simp
    with "1.prems" show ?thesis by (simp add: hint_rows_end)
  next
    case True
    then have split: "{i ..< K'} = insert i {i + 1 ..< K'}" by auto
    have upt: "[i ..< K'] = i # [i + 1 ..< K']" using True by (simp add: upt_conv_Cons)
    show ?thesis
    proof (cases "c < k \<or> c > omega")
      case bad: True
      then have "\<not> row_ok omega buf i"
        using "1.prems" by (auto simp: row_ok_def c_def)
      moreover have "hint_rows omega K' buf i k h = None"
        using True bad by (intro hint_rows_bad) (simp_all add: c)
      ultimately show ?thesis using True by auto
    next
      case good: False
      then have good': "\<not> (unat (buf ! (omega + i)) < k \<or> unat (buf ! (omega + i)) > omega)"
        by (simp add: c)
      note unfold = hint_rows_ok [OF True good', of h, unfolded c]
      note row = hint_row_spec [OF "1.prems"(1) c_def]
      show ?thesis
      proof (cases "\<forall>j \<in> {k <..< c}. unat (buf ! (j - 1)) < unat (buf ! j)")
        case False
        then have "\<not> row_ok omega buf i"
          using "1.prems" by (auto simp: row_ok_def c_def)
        moreover have "hint_row buf k c k (newPoly N) = None"
          unfolding row using False by (rule if_not_P)
        then have "hint_rows omega K' buf i k h = None"
          by (simp add: unfold)
        ultimately show ?thesis using True by auto
      next
        case inc: True
        then have r: "hint_row buf k c k (newPoly N) = Some (spec_hint_row omega buf i)"
          by (simp add: row)
        have rok: "row_ok omega buf i"
          using inc good "1.prems" by (auto simp: row_ok_def c_def)
        have pc: "c = prev_cursor omega buf (i + 1)"
          by (simp add: prev_cursor_def c_def)
        have "hint_rows omega K' buf i k h =
            hint_rows omega K' buf (i + 1) c (h @ [spec_hint_row omega buf i])"
          by (simp add: unfold r)
        also have "\<dots> = (if \<forall>i' \<in> {i + 1 ..< K'}. row_ok omega buf i'
            then Some (prev_cursor omega buf K',
              (h @ [spec_hint_row omega buf i]) @ map (spec_hint_row omega buf) [i + 1 ..< K'])
            else None)"
          using "1.IH" [OF True good' r [folded c] pc [folded c]] True by (simp add: c)
        finally show ?thesis
          unfolding split upt using rok by simp
      qed
    qed
  qed
qed

lemma hint_tail_spec: "hint_tail omega buf j = (\<forall>j' \<in> {j ..< omega}. buf ! j' = 0)"
proof (induction omega buf j rule: hint_tail.induct)
  case (1 omega buf j)
  show ?case
  proof (cases "j < omega")
    case False
    then show ?thesis by (subst hint_tail.simps) simp
  next
    case True
    then have split: "{j ..< omega} = insert j {j + 1 ..< omega}" by auto
    show ?thesis
    proof (cases "buf ! j = 0")
      case z: True
      have "hint_tail omega buf j = hint_tail omega buf (j + 1)"
        using True z by (subst hint_tail.simps) simp
      with "1.IH" [OF True] z show ?thesis unfolding split by simp
    next
      case nz: False
      have "hint_tail omega buf j = False"
        using True nz by (subst hint_tail.simps) simp
      with nz show ?thesis unfolding split by simp
    qed
  qed
qed

text \<open>C6: on a buffer of \<open>OMEGA + K\<close> bytes, hint decoding returns \<^verbatim>\<open>false\<close> whenever a
  cursor is below the previous one or above \<open>OMEGA\<close>, whenever the indices listed for a row do
  not increase strictly, or whenever a byte between the last cursor and \<open>OMEGA\<close> is not zero;
  otherwise it returns \<open>K\<close> polynomials with a one exactly at each listed index and zero
  elsewhere.\<close>

theorem hintCoder_decode_spec:
  assumes "length buf = p_OMEGA p + p_K p"
  shows "hintCoder_decode p buf = spec_hint_decode (p_OMEGA p) (p_K p) buf"
proof -
  have rows: "hint_rows (p_OMEGA p) (p_K p) buf 0 0 [] =
    (if \<forall>i' \<in> {0 ..< p_K p}. row_ok (p_OMEGA p) buf i'
     then Some (prev_cursor (p_OMEGA p) buf (p_K p),
                map (spec_hint_row (p_OMEGA p) buf) [0 ..< p_K p])
     else None)"
    using hint_rows_spec [of 0 "p_OMEGA p" buf 0 "p_K p" "[]"]
    by (simp add: prev_cursor_def)
  have ok: "(\<forall>i' \<in> {0 ..< p_K p}. row_ok (p_OMEGA p) buf i') \<longleftrightarrow>
      spec_cursors_ok (p_OMEGA p) (p_K p) buf \<and> spec_indices_ok (p_OMEGA p) (p_K p) buf"
    by (auto simp: row_ok_def spec_cursors_ok_def spec_indices_ok_def)
  have "hintCoder_decode p buf =
    (if (\<forall>i' \<in> {0 ..< p_K p}. row_ok (p_OMEGA p) buf i') \<and> spec_tail_ok (p_OMEGA p) (p_K p) buf
     then Some (map (spec_hint_row (p_OMEGA p) buf) [0 ..< p_K p]) else None)"
    by (simp add: hintCoder_decode_def rows hint_tail_spec spec_tail_ok_def)
  also have "\<dots> = spec_hint_decode (p_OMEGA p) (p_K p) buf"
    unfolding ok by (simp add: spec_hint_decode_def)
  finally show ?thesis .
qed

theorem hintCoder_decode_spec_witness:
  "length hint_good = p_OMEGA prims44 + p_K prims44 \<and>
   hintCoder_decode prims44 hint_good = Some (map (spec_hint_row 80 hint_good) [0 ..< 4]) \<and>
   hintCoder_decode prims44 hint_bad = None"
proof -
  have p: "p_OMEGA prims44 = 80" "p_K prims44 = 4" by (simp_all add: prims44_def)
  have len: "length hint_good = p_OMEGA prims44 + p_K prims44"
    "length hint_bad = p_OMEGA prims44 + p_K prims44"
    by (simp_all add: p hint_good_def hint_bad_def)
  have good: "spec_cursors_ok 80 4 hint_good \<and> spec_indices_ok 80 4 hint_good \<and>
      spec_tail_ok 80 4 hint_good"
    by code_simp
  have bad: "spec_hint_decode 80 4 hint_bad = None"
    by code_simp
  have "hintCoder_decode prims44 hint_good = Some (map (spec_hint_row 80 hint_good) [0 ..< 4])"
    using hintCoder_decode_spec [OF len(1)] good by (simp add: p spec_hint_decode_def)
  moreover have "hintCoder_decode prims44 hint_bad = None"
    using hintCoder_decode_spec [OF len(2)] bad by (simp add: p)
  ultimately show ?thesis using len(1) by simp
qed

section \<open>SampleInBall\<close>

declare SampleInBall_loop.simps [simp del]

lemma filter_update_count:
  "k < length xs \<Longrightarrow>
    length (filter P (xs[k := v])) + (if P (xs ! k) then 1 else 0) =
    length (filter P xs) + (if P v then 1 else 0)"
proof (induction xs arbitrary: k)
  case Nil
  then show ?case by simp
next
  case (Cons x xs)
  show ?case
  proof (cases k)
    case 0
    then show ?thesis by simp
  next
    case (Suc k')
    with Cons.prems have "k' < length xs" by simp
    from Cons.IH [OF this] Suc show ?thesis by simp
  qed
qed

lemma sample_byte_returns:
  assumes "unat (xof ((g + d) div blockLen) ! ((g + d) mod blockLen)) \<le> i"
    and "g = blk * blockLen + pos" and "pos < blockLen" and "buf = xof blk"
  shows "\<exists>b pos' blk'. sample_byte xof i buf pos (blk + 1) = Some (b, xof blk', pos', blk' + 1) \<and>
    b \<le> i \<and> pos' < blockLen"
  using assms
proof (induction d arbitrary: g blk pos buf)
  case 0
  then have here: "unat (buf ! pos) \<le> i" by simp
  show ?case
  proof (cases "pos + 1 < blockLen")
    case True
    with here 0 show ?thesis
      by (subst sample_byte.simps) auto
  next
    case False
    with here 0 show ?thesis
      by (subst sample_byte.simps) (auto simp: blockLen_def)
  qed
next
  case (Suc d)
  have p1: "unat (xof ((g + 1 + d) div blockLen) ! ((g + 1 + d) mod blockLen)) \<le> i"
    using Suc.prems(1) by simp
  show ?case
  proof (cases "unat (buf ! pos) \<le> i")
    case here: True
    show ?thesis
    proof (cases "pos + 1 < blockLen")
      case True
      with here Suc.prems show ?thesis
        by (subst sample_byte.simps) auto
    next
      case False
      with here Suc.prems show ?thesis
        by (subst sample_byte.simps) (auto simp: blockLen_def)
    qed
  next
    case rej: False
    show ?thesis
    proof (cases "pos + 1 < blockLen")
      case True
      have "\<exists>b pos' blk'. sample_byte xof i buf (pos + 1) (blk + 1) = Some (b, xof blk', pos', blk' + 1) \<and>
          b \<le> i \<and> pos' < blockLen"
        using Suc.prems(2-) True by (intro Suc.IH [of "g + 1" blk, OF p1]) simp_all
      moreover have "sample_byte xof i buf pos (blk + 1) = sample_byte xof i buf (pos + 1) (blk + 1)"
        using rej True by (subst sample_byte.simps) simp
      ultimately show ?thesis by simp
    next
      case False
      with Suc.prems have pos: "pos + 1 = blockLen" by simp
      have "\<exists>b pos' blk'. sample_byte xof i (xof (blk + 1)) 0 (blk + 1 + 1) =
            Some (b, xof blk', pos', blk' + 1) \<and> b \<le> i \<and> pos' < blockLen"
        using Suc.prems(2-) pos by (intro Suc.IH [of "g + 1" "blk + 1", OF p1]) simp_all
      moreover have "sample_byte xof i buf pos (blk + 1) = sample_byte xof i (xof (blk + 1)) 0 (blk + 1 + 1)"
        using rej False by (subst sample_byte.simps) simp
      ultimately show ?thesis by simp
    qed
  qed
qed


lemma sample_byte_ok:
  assumes "xof_recurs xof bound" "bound \<le> i" "pos < blockLen"
  shows "\<exists>b pos' blk'. sample_byte xof i (xof blk) pos (blk + 1) = Some (b, xof blk', pos', blk' + 1) \<and>
    b \<le> i \<and> pos' < blockLen"
proof -
  from assms(1) obtain m j where mj: "m \<ge> blk + 1" "j < blockLen" "unat (xof m ! j) \<le> bound"
    unfolding xof_recurs_def by blast
  define g where "g = blk * blockLen + pos"
  define d where "d = m * blockLen + j - g"
  have "(blk + 1) * blockLen \<le> m * blockLen" using mj(1) by (intro mult_le_mono1)
  then have "g \<le> m * blockLen + j" using assms(3) by (simp add: g_def)
  then have gd: "g + d = j + m * blockLen" by (simp add: d_def)
  have "(g + d) div blockLen = m" "(g + d) mod blockLen = j"
    using mj(2) unfolding gd by (simp_all add: blockLen_def)
  then have "unat (xof ((g + d) div blockLen) ! ((g + d) mod blockLen)) \<le> i"
    using mj(3) assms(2) by simp
  from sample_byte_returns [of xof g d i blk pos "xof blk", OF this g_def assms(3)]
  show ?thesis by simp
qed

lemma sign_coeff: "1 - push_bit 1 (drop_bit n (m :: int) AND 1) \<in> {- 1, 1}"
proof -
  have "drop_bit n m AND 1 = drop_bit n m mod 2" by (simp add: and_one_eq)
  moreover have "drop_bit n m mod 2 = 0 \<or> drop_bit n m mod 2 = 1" by auto
  ultimately show ?thesis by (auto simp: push_bit_eq_mult)
qed

lemma SampleInBall_step:
  assumes "b \<le> i" "i < N" "length pre = N" "\<forall>x \<in> set pre. x \<in> {- 1, 0, 1}"
    "\<forall>j. i \<le> j \<and> j < N \<longrightarrow> pre ! j = 0" "v \<in> {- 1, 1}"
  defines "pre2 \<equiv> pre[i := pre ! b, b := v]"
  shows "length pre2 = N" "\<forall>x \<in> set pre2. x \<in> {- 1, 0, (1::int)}"
    "\<forall>j. i + 1 \<le> j \<and> j < N \<longrightarrow> pre2 ! j = 0"
    "length (filter (\<lambda>x. x \<noteq> 0) pre2) = length (filter (\<lambda>x. x \<noteq> 0) pre) + 1"
proof -
  let ?P = "\<lambda>x::int. x \<noteq> 0"
  let ?pre1 = "pre[i := pre ! b]"
  show "length pre2 = N" using assms(3) by (simp add: pre2_def)
  have bN: "b < N" using assms(1,2) by simp
  have "pre ! b \<in> set pre" using bN assms(3) by simp
  then have pb: "pre ! b \<in> {- 1, 0, 1}" using assms(4) by blast
  have "set pre2 \<subseteq> insert v (insert (pre ! b) (set pre))"
    unfolding pre2_def
    by (meson set_update_subset_insert subset_trans insert_mono)
  with pb assms(4,6) show "\<forall>x \<in> set pre2. x \<in> {- 1, 0, 1}" by auto
  show "\<forall>j. i + 1 \<le> j \<and> j < N \<longrightarrow> pre2 ! j = 0"
    using assms(1,3,5) by (auto simp: pre2_def nth_list_update)
  have pi: "pre ! i = 0" using assms(2,5) by simp
  have c1: "length (filter ?P ?pre1) + (if ?P (pre ! i) then 1 else 0) =
      length (filter ?P pre) + (if ?P (pre ! b) then 1 else 0)"
    using assms(2,3) by (intro filter_update_count) simp
  have c2: "length (filter ?P pre2) + (if ?P (?pre1 ! b) then 1 else 0) =
      length (filter ?P ?pre1) + (if ?P v then 1 else 0)"
    unfolding pre2_def using bN assms(3) by (intro filter_update_count) simp
  have p1b: "?pre1 ! b = pre ! b"
    using assms(2,3) bN by (cases "b = i") (simp_all add: pi)
  have "v \<noteq> 0" using assms(6) by auto
  with c1 c2 pi p1b show "length (filter ?P pre2) = length (filter ?P pre) + 1"
    by (simp split: if_splits)
qed

lemma SampleInBall_loop_ok:
  assumes "xof_recurs xof (N - tau)" "tau \<le> N"
  shows "N - tau \<le> i \<Longrightarrow> i \<le> N \<Longrightarrow> pos < blockLen \<Longrightarrow> length pre = N \<Longrightarrow>
    \<forall>x \<in> set pre. x \<in> {- 1, 0, 1} \<Longrightarrow> \<forall>j. i \<le> j \<and> j < N \<longrightarrow> pre ! j = 0 \<Longrightarrow>
    length (filter (\<lambda>x. x \<noteq> 0) pre) + (N - tau) = i \<Longrightarrow>
    \<exists>c. SampleInBall_loop xof masks i pre (xof blk) pos (blk + 1) maskPos maskBit = Some c \<and>
      length c = N \<and> (\<forall>x \<in> set c. x \<in> {- 1, 0, 1}) \<and>
      length (filter (\<lambda>x. x \<noteq> 0) c) = tau"
proof (induction "N - i" arbitrary: i pre blk pos maskPos maskBit)
  case 0
  then have "i = N" by simp
  then have "SampleInBall_loop xof masks i pre (xof blk) pos (blk + 1) maskPos maskBit = Some pre"
    by (subst SampleInBall_loop.simps) simp
  moreover from \<open>i = N\<close> "0.prems"(7) assms(2) have "length (filter (\<lambda>x. x \<noteq> 0) pre) = tau"
    by simp
  ultimately show ?case using "0.prems" by simp
next
  case (Suc n)
  then have iN: "i < N" by simp
  from sample_byte_ok [OF assms(1) Suc.prems(1) Suc.prems(3), of blk]
  obtain b pos' blk' where
    sb: "sample_byte xof i (xof blk) pos (blk + 1) = Some (b, xof blk', pos', blk' + 1)"
    and b: "b \<le> i" and pos': "pos' < blockLen"
    by blast
  define v where "v = 1 - push_bit 1 (drop_bit maskBit (mask_at masks maskPos) AND 1)"
  define pre2 where "pre2 = pre[i := pre ! b, b := v]"
  have v: "v \<in> {- 1, 1}" unfolding v_def by (rule sign_coeff)
  note st = SampleInBall_step [OF b iN Suc.prems(4) Suc.prems(5) Suc.prems(6) v, folded pre2_def]
  have cnt: "length (filter (\<lambda>x. x \<noteq> 0) pre2) + (N - tau) = i + 1"
    using st(4) Suc.prems(7) by simp
  have n: "n = N - (i + 1)" using Suc.hyps(2) by simp
  have i1: "N - tau \<le> i + 1" "i + 1 \<le> N" using Suc.prems(1) iN by simp_all
  have IH: "\<exists>c. SampleInBall_loop xof masks (i + 1) pre2 (xof blk') pos' (blk' + 1) mp mb = Some c \<and>
      length c = N \<and> (\<forall>x \<in> set c. x \<in> {- 1, 0, 1}) \<and>
      length (filter (\<lambda>x. x \<noteq> 0) c) = tau" for mp mb
    by (rule Suc.hyps(1) [OF n i1 pos' st(1) st(2) st(3) cnt])
  have unfold: "SampleInBall_loop xof masks i pre (xof blk) pos (blk + 1) maskPos maskBit =
    (if maskBit + 1 \<ge> 8
     then SampleInBall_loop xof masks (i + 1) pre2 (xof blk') pos' (blk' + 1) (maskPos + 1) 0
     else SampleInBall_loop xof masks (i + 1) pre2 (xof blk') pos' (blk' + 1) maskPos (maskBit + 1))"
    using iN sb by (subst SampleInBall_loop.simps) (simp add: Let_def pre2_def v_def)
  show ?case
    unfolding unfold using IH [of "maskPos + 1" 0] IH [of maskPos "maskBit + 1"]
    by (cases "maskBit + 1 \<ge> 8") simp_all
qed

text \<open>C5: \<open>SampleInBall\<close> returns a polynomial of 256 coefficients, all of them in
  \<open>{-1, 0, 1}\<close>, exactly \<open>TAU\<close> of them nonzero. The seed enters through the SHAKE256 output
  \<open>xof\<close>; the rejection loop returns for every output in which bytes of at most \<open>N - TAU\<close>
  keep occurring.\<close>

theorem SampleInBall_spec:
  assumes "p_TAU p \<le> N" "xof_blocks xof" "xof_recurs xof (N - p_TAU p)"
  shows "\<exists>c. SampleInBall p xof = Some c \<and> length c = N \<and> (\<forall>x \<in> set c. x \<in> {- 1, 0, 1}) \<and>
    length (filter (\<lambda>x. x \<noteq> 0) c) = p_TAU p"
proof -
  have "\<exists>c. SampleInBall_loop xof (take 8 (xof 0)) (N - p_TAU p) (newPoly N) (xof 0) 8 (0 + 1) 0 0
        = Some c \<and>
      length c = N \<and> (\<forall>x \<in> set c. x \<in> {- 1, 0, 1}) \<and>
      length (filter (\<lambda>x. x \<noteq> 0) c) = p_TAU p"
    using assms(1)
    by (intro SampleInBall_loop_ok [OF assms(3) assms(1)])
      (simp_all add: newPoly_def blockLen_def)
  then show ?thesis using assms(1) by (simp add: SampleInBall_def Let_def)
qed

lemma zero_xof_ok: "xof_blocks zero_xof" "xof_recurs zero_xof bound"
proof -
  show "xof_blocks zero_xof" by (simp add: xof_blocks_def zero_xof_def)
  have "0 < blockLen \<and> unat (zero_xof m ! 0) \<le> bound" for m
    by (simp add: zero_xof_def blockLen_def)
  then show "xof_recurs zero_xof bound"
    unfolding xof_recurs_def by blast
qed

theorem SampleInBall_spec_witness:
  "p_TAU prims44 \<le> N \<and> xof_blocks zero_xof \<and> xof_recurs zero_xof (N - p_TAU prims44) \<and>
   (\<exists>c. SampleInBall prims44 zero_xof = Some c \<and> length c = 256 \<and>
      (\<forall>x \<in> set c. x \<in> {- 1, 0, 1}) \<and> length (filter (\<lambda>x. x \<noteq> 0) c) = 39)"
proof -
  have t: "p_TAU prims44 \<le> N" "p_TAU prims44 = 39" by (simp_all add: prims44_def N_def)
  from SampleInBall_spec [OF t(1) zero_xof_ok(1) zero_xof_ok(2)] t zero_xof_ok
  show ?thesis by (simp add: N_def)
qed

section \<open>Commitment packing round trip\<close>

declare pack_flush.simps [simp del] polyPackW_loop.simps [simp del]
  unpack_fill.simps [simp del] polyUnpackW_loop.simps [simp del]
  packPolys_row.simps [simp del] packPolys_loop.simps [simp del]
  unpackPolys_row.simps [simp del] unpackPolys_loop.simps [simp del]

subsection \<open>The 32-bit operators on small operands\<close>

lemma uint32_id: "0 \<le> x \<Longrightarrow> x < 2 ^ 32 \<Longrightarrow> uint32 x = x"
  by (simp add: uint32_def take_bit_int_eq_self)

lemma int32_nonneg: "0 \<le> x \<Longrightarrow> x < 2 ^ 31 \<Longrightarrow> int32 x = x"
  by (rule int32_id) simp_all

lemma js_and_mask23:
  assumes "0 \<le> a" "a < 2 ^ 31"
  shows "js_and a 0x7fffff = a mod 2 ^ 23"
proof -
  have "(0x7fffff :: int) = mask 23" by (simp add: mask_eq_exp_minus_1)
  then have "a AND 0x7fffff = take_bit 23 a" by (simp only: take_bit_eq_mask)
  moreover have "int32 0x7fffff = 0x7fffff" by (rule int32_nonneg) simp_all
  ultimately show ?thesis
    using assms by (simp add: js_and_def int32_nonneg take_bit_eq_mod)
qed

lemma js_and_mask8:
  assumes "0 \<le> a" "a < 2 ^ 31"
  shows "js_and a 0xff = a mod 256"
proof -
  have "(0xff :: int) = mask 8" by (simp add: mask_eq_exp_minus_1)
  then have "a AND 0xff = take_bit 8 a" by (simp only: take_bit_eq_mask)
  moreover have "int32 0xff = 0xff" by (rule int32_nonneg) simp_all
  ultimately show ?thesis
    using assms by (simp add: js_and_def int32_nonneg take_bit_eq_mod)
qed

lemma js_shl_small:
  assumes "0 \<le> a" "a * 2 ^ n < 2 ^ 31" "n < 32"
  shows "js_shl a n = a * 2 ^ n"
proof -
  have "a \<le> a * 2 ^ n" using assms(1) by (simp add: mult_le_cancel_left1)
  with assms have a: "int32 a = a" by (intro int32_nonneg) simp_all
  have "0 \<le> a * 2 ^ n" using assms(1) by simp
  then have "int32 (a * 2 ^ n) = a * 2 ^ n" using assms(2) by (rule int32_nonneg)
  then show ?thesis using assms(3) by (simp add: js_shl_def a push_bit_eq_mult)
qed

lemma js_or_disjoint:
  assumes "0 \<le> v" "v < 2 ^ j" "0 \<le> c" "v + c * 2 ^ j < 2 ^ 31"
  shows "js_or v (c * 2 ^ j) = v + c * 2 ^ j"
proof -
  have v: "take_bit j v = v" using assms(1,2) by (simp add: take_bit_int_eq_self)
  have "take_bit j v AND push_bit j c = 0"
    by (rule bit_eqI) (auto simp: bit_simps)
  then have "v AND c * 2 ^ j = 0" by (simp add: v push_bit_eq_mult)
  then have sum: "v + c * 2 ^ j = v OR c * 2 ^ j" by (rule disjunctive_add_eq_or)
  have c0: "0 \<le> c * 2 ^ j" using assms(3) by simp
  have "int32 v = v" using assms c0 by (intro int32_nonneg; linarith)
  moreover have "int32 (c * 2 ^ j) = c * 2 ^ j" using assms c0 by (intro int32_nonneg; linarith)
  ultimately show ?thesis by (simp add: js_or_def sum)
qed

lemma js_ushr_small:
  assumes "0 \<le> v" "v < 2 ^ 32" "n < 32"
  shows "js_ushr v n = v div 2 ^ n"
  using assms by (simp add: js_ushr_def uint32_id drop_bit_eq_div)

lemma js_mask23_const: "js_shl 1 23 - 1 = 0x7fffff"
  by (simp add: js_shl_small)

subsection \<open>Byte strings and coefficient lists as numbers\<close>

lemma pow8_Suc: "(2::int) ^ (8 * Suc n) = 256 * 2 ^ (8 * n)"
  by (simp add: power_add)

lemma le_val_append: "le_val (xs @ ys) = le_val xs + 2 ^ (8 * length xs) * le_val ys"
proof (induction xs)
  case Nil
  show ?case by simp
next
  case (Cons b xs)
  have "le_val ((b # xs) @ ys) = uint b + 256 * (le_val xs + 2 ^ (8 * length xs) * le_val ys)"
    using Cons by simp
  also have "\<dots> = le_val (b # xs) + 2 ^ (8 * Suc (length xs)) * le_val ys"
    unfolding pow8_Suc by (simp add: algebra_simps)
  finally show ?case by simp
qed

lemma le_val_bounds: "0 \<le> le_val xs" "le_val xs < 2 ^ (8 * length xs)"
proof -
  show "0 \<le> le_val xs" by (induction xs) simp_all
  show "le_val xs < 2 ^ (8 * length xs)"
  proof (induction xs)
    case Nil
    show ?case by simp
  next
    case (Cons b xs)
    have "uint b < 256" using uint_lt2p [of b] by simp
    moreover from Cons have "le_val xs + 1 \<le> 2 ^ (8 * length xs)" by simp
    ultimately have "uint b + 256 * le_val xs < 2 ^ (8 * Suc (length xs))"
      unfolding pow8_Suc by linarith
    then show ?case by simp
  qed
qed

lemma val23_nonneg: "\<forall>c \<in> set p. 0 \<le> c \<Longrightarrow> 0 \<le> val23 p"
  by (induction p) simp_all

lemma drop_Cons_nth: "i < length p \<Longrightarrow> drop i p = p ! i # drop (i + 1) p"
  by (simp add: Cons_nth_drop_Suc)

lemma take_drop_Cons:
  "m < length xs \<Longrightarrow> take (Suc n) (drop m xs) = xs ! m # take n (drop (Suc m) xs)"
  by (simp add: Cons_nth_drop_Suc [symmetric])


subsection \<open>Packing one polynomial\<close>

lemma pack_flush_end: "\<not> j \<ge> 8 \<Longrightarrow> pack_flush buf offset v j k = (buf, v, j, k)"
  by (subst pack_flush.simps) (simp only: if_False)

lemma pack_flush_step:
  "j \<ge> 8 \<Longrightarrow> pack_flush buf offset v j k =
    pack_flush (buf[offset + k := word_of_int (js_and v 0xff)]) offset (js_ushr v 8) (j - 8) (k + 1)"
  by (subst pack_flush.simps) (simp only: if_True)

lemma pack_flush_spec:
  assumes "0 \<le> v" "v < 2 ^ j" "j \<le> 31" "offset + k + j div 8 \<le> length buf"
  shows "\<exists>buf' v'. pack_flush buf offset v j k = (buf', v', j mod 8, k + j div 8) \<and>
      0 \<le> v' \<and> v' < 2 ^ (j mod 8) \<and> length buf' = length buf \<and>
      take (offset + k) buf' = take (offset + k) buf \<and>
      drop (offset + k + j div 8) buf' = drop (offset + k + j div 8) buf \<and>
      le_val (take (j div 8) (drop (offset + k) buf')) + 2 ^ (8 * (j div 8)) * v' = v"
  using assms
proof (induction buf offset v j k rule: pack_flush.induct)
  case (1 buf offset v j k)
  show ?case
  proof (cases "j \<ge> 8")
    case False
    then have "j mod 8 = j" "j div 8 = 0" by simp_all
    with False "1.prems" show ?thesis by (simp add: pack_flush_end)
  next
    case True
    define n where "n = (j - 8) div 8"
    have jn: "j div 8 = Suc n" "(j - 8) div 8 = n" "(j - 8) mod 8 = j mod 8"
      using True by (simp_all add: n_def le_div_geq le_mod_geq)
    define b :: byte where "b = word_of_int (js_and v 0xff)"
    define buf1 where "buf1 = buf[offset + k := b]"
    define v1 where "v1 = js_ushr v 8"
    have v31: "v < 2 ^ 31"
    proof -
      have "(2::int) ^ j \<le> 2 ^ 31" using "1.prems"(3) by (intro power_increasing) simp_all
      with "1.prems"(2) show ?thesis by simp
    qed
    have b: "uint b = v mod 256"
      using "1.prems"(1) v31 by (simp add: b_def js_and_mask8 uint_word_of_int)
    have v1: "v1 = v div 256"
      using "1.prems"(1) v31 by (simp add: v1_def js_ushr_small)
    have pw: "(2::int) ^ j = 256 * 2 ^ (j - 8)"
    proof -
      have "(2::int) ^ (8 + (j - 8)) = 2 ^ 8 * 2 ^ (j - 8)" by (rule power_add)
      then show ?thesis using True by simp
    qed
    have v1_bounds: "0 \<le> v1" "v1 < 2 ^ (j - 8)"
    proof -
      show "0 \<le> v1" using "1.prems"(1) by (simp add: v1 pos_imp_zdiv_nonneg_iff)
      have "v = 256 * v1 + v mod 256" by (simp add: v1)
      moreover have "0 \<le> v mod 256" by simp
      ultimately show "v1 < 2 ^ (j - 8)" using "1.prems"(2) unfolding pw by linarith
    qed
    have len1: "offset + (k + 1) + (j - 8) div 8 \<le> length buf1"
      using "1.prems"(4) by (simp add: jn buf1_def)
    have j31: "j - 8 \<le> 31" using "1.prems"(3) by simp
    from "1.IH" [OF True, folded b_def v1_def, folded buf1_def, OF v1_bounds j31 len1]
    obtain buf' v' where
      pf: "pack_flush buf1 offset v1 (j - 8) (k + 1) = (buf', v', j mod 8, k + 1 + n)"
      and v': "0 \<le> v'" "v' < 2 ^ (j mod 8)"
      and len: "length buf' = length buf1"
      and tk: "take (offset + (k + 1)) buf' = take (offset + (k + 1)) buf1"
      and dr: "drop (offset + (k + 1) + n) buf' = drop (offset + (k + 1) + n) buf1"
      and lv: "le_val (take n (drop (offset + (k + 1)) buf')) + 2 ^ (8 * n) * v' = v1"
      unfolding jn by blast
    have inb: "offset + k < length buf" using "1.prems"(4) jn by simp
    have "pack_flush buf offset v j k = (buf', v', j mod 8, k + j div 8)"
      using pf by (simp add: pack_flush_step [OF True] b_def buf1_def v1_def jn)
    moreover have "length buf' = length buf" using len by (simp add: buf1_def)
    moreover have tk0: "take (offset + k) buf' = take (offset + k) buf"
    proof -
      have "take (offset + k) buf' = take (offset + k) (take (offset + (k + 1)) buf')"
        by (simp add: min_def)
      also have "\<dots> = take (offset + k) buf1" unfolding tk by (simp add: min_def)
      also have "\<dots> = take (offset + k) buf" by (simp add: buf1_def)
      finally show ?thesis .
    qed
    moreover have "drop (offset + k + j div 8) buf' = drop (offset + k + j div 8) buf"
      using dr by (simp add: jn buf1_def)
    moreover have "le_val (take (j div 8) (drop (offset + k) buf')) + 2 ^ (8 * (j div 8)) * v' = v"
    proof -
      have "buf' ! (offset + k) = take (offset + (k + 1)) buf' ! (offset + k)" by simp
      also have "\<dots> = buf1 ! (offset + k)" unfolding tk by simp
      also have "\<dots> = b" using inb by (simp add: buf1_def)
      finally have nth: "buf' ! (offset + k) = b" .
      have inb': "offset + k < length buf'" using inb len by (simp add: buf1_def)
      have "take (Suc n) (drop (offset + k) buf') = b # take n (drop (Suc (offset + k)) buf')"
        using take_drop_Cons [OF inb', of n] nth by simp
      then have "le_val (take (Suc n) (drop (offset + k) buf')) =
          v mod 256 + 256 * le_val (take n (drop (offset + (k + 1)) buf'))"
        by (simp add: b)
      then have "le_val (take (Suc n) (drop (offset + k) buf')) + 2 ^ (8 * Suc n) * v' =
          v mod 256 + 256 * (le_val (take n (drop (offset + (k + 1)) buf')) + 2 ^ (8 * n) * v')"
        unfolding pow8_Suc by (simp add: algebra_simps)
      also have "\<dots> = v mod 256 + 256 * (v div 256)"
        unfolding lv v1 ..
      also have "\<dots> = v" by simp
      finally show ?thesis unfolding jn .
    qed
    ultimately show ?thesis using v' by blast
  qed
qed


lemma polyPackW_loop_end: "\<not> i < N \<Longrightarrow> polyPackW_loop p buf offset i v j k = buf"
  by (subst polyPackW_loop.simps) (simp only: if_False)

lemma polyPackW_loop_step:
  "i < N \<Longrightarrow> polyPackW_loop p buf offset i v j k =
    (case pack_flush buf offset (js_or v (js_shl (js_and (coef p i) 0x7fffff) j)) (j + 23) k of
       (buf', v', j', k') \<Rightarrow> polyPackW_loop p buf' offset (i + 1) v' j' k')"
  by (subst polyPackW_loop.simps) (simp only: if_True)

lemma POLY_Q_SIZE_eq: "POLY_Q_SIZE = 736"
  by (simp add: POLY_Q_SIZE_def N_def)

lemma pack_insert:
  assumes "0 \<le> v" "v < 2 ^ j" "j < 8" "0 \<le> c" "c < 2 ^ 23"
  shows "js_or v (js_shl (js_and c 0x7fffff) j) = v + c * 2 ^ j"
    and "v + c * 2 ^ j < 2 ^ (j + 23)"
proof -
  define P :: int where "P = 2 ^ j"
  have P: "0 < P" "P \<le> 128"
  proof -
    show "0 < P" by (simp add: P_def)
    have "(2::int) ^ j \<le> 2 ^ 7" using assms(3) by (intro power_increasing) simp_all
    then show "P \<le> 128" by (simp add: P_def)
  qed
  have "(c + 1) * P \<le> 2 ^ 23 * P"
    using assms(5) P(1) by (intro mult_right_mono) simp_all
  then have cP: "c * P + P \<le> 8388608 * P" by (simp add: algebra_simps)
  have vP: "v < P" using assms(2) by (simp add: P_def)
  from cP vP have "v + c * P < 8388608 * P" by linarith
  then show lt: "v + c * 2 ^ j < 2 ^ (j + 23)" by (simp add: power_add P_def)
  from cP vP P(2) have small: "v + c * 2 ^ j < 2 ^ 31" unfolding P_def [symmetric] by simp
  have "0 \<le> c * P" using assms(4) P(1) by simp
  with cP P(2) have cs: "c * 2 ^ j < 2 ^ 31" unfolding P_def [symmetric] by simp
  have c31: "c < 2 ^ 31" using assms(5) by simp
  have "js_and c 0x7fffff = c" using assms(4,5) c31 by (simp add: js_and_mask23)
  moreover have "js_shl c j = c * 2 ^ j" using assms(3,4) cs by (intro js_shl_small) simp_all
  ultimately show "js_or v (js_shl (js_and c 0x7fffff) j) = v + c * 2 ^ j"
    using js_or_disjoint [OF assms(1,2,4) small] by simp
qed

lemma polyPackW_loop_spec:
  assumes "length p = N" "\<forall>c \<in> set p. 0 \<le> c \<and> c < 2 ^ 23"
  shows "i \<le> N \<Longrightarrow> 8 * k + j = 23 * i \<Longrightarrow> j < 8 \<Longrightarrow> 0 \<le> v \<Longrightarrow> v < 2 ^ j \<Longrightarrow>
    offset + POLY_Q_SIZE \<le> length buf \<Longrightarrow>
    length (polyPackW_loop p buf offset i v j k) = length buf \<and>
    take (offset + k) (polyPackW_loop p buf offset i v j k) = take (offset + k) buf \<and>
    drop (offset + POLY_Q_SIZE) (polyPackW_loop p buf offset i v j k) =
      drop (offset + POLY_Q_SIZE) buf \<and>
    le_val (take (POLY_Q_SIZE - k) (drop (offset + k) (polyPackW_loop p buf offset i v j k))) =
      v + 2 ^ j * val23 (drop i p)"
proof (induction "N - i" arbitrary: i v j k buf)
  case 0
  then have iN: "i = N" by simp
  with "0.prems"(2,3) have "8 * k + j = 5888" "j < 8" by (simp_all add: N_def)
  then have "j = 0 \<and> k = 736" by presburger
  then have "j = 0" "k = POLY_Q_SIZE" by (simp_all add: POLY_Q_SIZE_eq)
  with "0.prems" iN assms(1) show ?case
    by (simp add: polyPackW_loop_end)
next
  case (Suc m)
  then have iN: "i < N" by simp
  define c where "c = p ! i"
  have "c \<in> set p" using iN assms(1) by (simp add: c_def)
  then have c: "0 \<le> c" "c < 2 ^ 23" using assms(2) by auto
  have coef: "coef p i = c" using iN assms(1) by (simp add: coef_def c_def)
  define v1 where "v1 = v + c * 2 ^ j"
  note ins = pack_insert [OF Suc.prems(4) Suc.prems(5) Suc.prems(3) c, folded v1_def]
  have v1: "0 \<le> v1" using Suc.prems(4) c(1) by (simp add: v1_def)
  define n where "n = (j + 23) div 8"
  define j' where "j' = (j + 23) mod 8"
  have nj: "8 * n + j' = j + 23" by (simp add: n_def j'_def)
  have j': "j' < 8" by (simp add: j'_def)
  have k': "8 * (k + n) + j' = 23 * (i + 1)" using nj Suc.prems(2) by simp
  have kn: "k + n \<le> POLY_Q_SIZE" using k' iN by (simp add: POLY_Q_SIZE_eq N_def)
  have j31: "j + 23 \<le> 31" using Suc.prems(3) by simp
  have room: "offset + k + (j + 23) div 8 \<le> length buf"
    using kn Suc.prems(6) by (simp add: n_def)
  from pack_flush_spec [OF v1 ins(2) j31 room]
  obtain buf1 v' where
    pf: "pack_flush buf offset v1 (j + 23) k = (buf1, v', j', k + n)"
    and v': "0 \<le> v'" "v' < 2 ^ j'"
    and len1: "length buf1 = length buf"
    and tk1: "take (offset + k) buf1 = take (offset + k) buf"
    and dr1: "drop (offset + k + n) buf1 = drop (offset + k + n) buf"
    and lv1: "le_val (take n (drop (offset + k) buf1)) + 2 ^ (8 * n) * v' = v1"
    unfolding n_def [symmetric] j'_def [symmetric] by blast
  define res where "res = polyPackW_loop p buf1 offset (i + 1) v' j' (k + n)"
  have unfold: "polyPackW_loop p buf offset i v j k = res"
    by (simp add: polyPackW_loop_step [OF iN] coef ins(1) pf res_def)
  have m: "m = N - (i + 1)" using Suc.hyps(2) by simp
  have i1: "i + 1 \<le> N" using iN by simp
  have room1: "offset + POLY_Q_SIZE \<le> length buf1" using Suc.prems(6) len1 by simp
  from Suc.hyps(1) [OF m i1 k' j' v' room1, folded res_def]
  have IH: "length res = length buf1"
    "take (offset + (k + n)) res = take (offset + (k + n)) buf1"
    "drop (offset + POLY_Q_SIZE) res = drop (offset + POLY_Q_SIZE) buf1"
    "le_val (take (POLY_Q_SIZE - (k + n)) (drop (offset + (k + n)) res)) =
      v' + 2 ^ j' * val23 (drop (i + 1) p)"
    by simp_all
  have a: "length res = length buf" using IH(1) len1 by simp
  have b: "take (offset + k) res = take (offset + k) buf"
  proof -
    have "take (offset + k) res = take (offset + k) (take (offset + (k + n)) res)"
      by (simp add: min_def)
    also have "\<dots> = take (offset + k) buf1" unfolding IH(2) by (simp add: min_def)
    finally show ?thesis using tk1 by simp
  qed
  have d: "drop (offset + POLY_Q_SIZE) res = drop (offset + POLY_Q_SIZE) buf"
  proof -
    have "drop (offset + POLY_Q_SIZE) buf1 =
        drop (POLY_Q_SIZE - (k + n)) (drop (offset + k + n) buf1)"
      using kn by (simp add: add.commute add.left_commute)
    also have "\<dots> = drop (POLY_Q_SIZE - (k + n)) (drop (offset + k + n) buf)"
      unfolding dr1 ..
    also have "\<dots> = drop (offset + POLY_Q_SIZE) buf"
      using kn by (simp add: add.commute add.left_commute)
    finally show ?thesis using IH(3) by simp
  qed
  have e: "le_val (take (POLY_Q_SIZE - k) (drop (offset + k) res)) = v + 2 ^ j * val23 (drop i p)"
  proof -
    have split: "POLY_Q_SIZE - k = n + (POLY_Q_SIZE - (k + n))" using kn by simp
    have "take n (drop (offset + k) res) = drop (offset + k) (take (offset + (k + n)) res)"
      by (simp add: take_drop add.commute add.left_commute)
    also have "\<dots> = take n (drop (offset + k) buf1)"
      unfolding IH(2) by (simp add: take_drop add.commute add.left_commute)
    finally have first: "take n (drop (offset + k) res) = take n (drop (offset + k) buf1)" .
    have len_first: "length (take n (drop (offset + k) res)) = n"
      using kn Suc.prems(6) a by simp
    have "le_val (take (POLY_Q_SIZE - k) (drop (offset + k) res)) =
        le_val (take n (drop (offset + k) res)) +
        2 ^ (8 * n) * le_val (take (POLY_Q_SIZE - (k + n)) (drop (offset + (k + n)) res))"
      unfolding split take_add le_val_append len_first
      by (simp add: add.commute add.left_commute)
    also have "\<dots> = (v1 - 2 ^ (8 * n) * v') + 2 ^ (8 * n) * (v' + 2 ^ j' * val23 (drop (i + 1) p))"
      unfolding first IH(4) using lv1 by simp
    also have "\<dots> = v1 + (2 ^ (8 * n) * 2 ^ j') * val23 (drop (i + 1) p)"
      by (simp add: algebra_simps)
    also have "(2::int) ^ (8 * n) * 2 ^ j' = 2 ^ j * 2 ^ 23"
      unfolding power_add [symmetric] nj ..
    also have "v1 + (2 ^ j * 2 ^ 23) * val23 (drop (i + 1) p) =
        v + 2 ^ j * val23 (c # drop (i + 1) p)"
      by (simp add: v1_def algebra_simps)
    also have "c # drop (i + 1) p = drop i p"
      using iN assms(1) by (simp add: c_def Cons_nth_drop_Suc)
    finally show ?thesis .
  qed
  show ?case unfolding unfold using a b d e by simp
qed


lemma polyPackW_spec:
  assumes "length p = N" "\<forall>c \<in> set p. 0 \<le> c \<and> c < 2 ^ 23"
    "offset + POLY_Q_SIZE \<le> length buf"
  shows "length (polyPackW p buf offset) = length buf"
    and "take offset (polyPackW p buf offset) = take offset buf"
    and "drop (offset + POLY_Q_SIZE) (polyPackW p buf offset) = drop (offset + POLY_Q_SIZE) buf"
    and "le_val (take POLY_Q_SIZE (drop offset (polyPackW p buf offset))) = val23 p"
  using polyPackW_loop_spec [OF assms(1,2), of 0 0 0 0 offset buf] assms(3)
  by (simp_all add: polyPackW_def)

subsection \<open>Unpacking one polynomial\<close>

lemma unpack_fill_end: "\<not> j < 23 \<Longrightarrow> unpack_fill buf offset v j k = (v, j, k)"
  by (subst unpack_fill.simps) (simp only: if_False)

lemma unpack_fill_step:
  "j < 23 \<Longrightarrow> unpack_fill buf offset v j k =
    unpack_fill buf offset (v + js_shl (js_and (byte_at buf (offset + k)) 0xff) j) (j + 8) (k + 1)"
  by (subst unpack_fill.simps) (simp only: if_True)

lemma unpack_fill_spec:
  assumes "0 \<le> v" "v < 2 ^ j" "j \<le> 30" "offset + k + (30 - j) div 8 \<le> length buf"
  shows "\<exists>v'. unpack_fill buf offset v j k = (v', j + 8 * ((30 - j) div 8), k + (30 - j) div 8) \<and>
    v' = v + 2 ^ j * le_val (take ((30 - j) div 8) (drop (offset + k) buf)) \<and>
    0 \<le> v' \<and> v' < 2 ^ (j + 8 * ((30 - j) div 8))"
  using assms
proof (induction buf offset v j k rule: unpack_fill.induct)
  case (1 buf offset v j k)
  show ?case
  proof (cases "j < 23")
    case False
    with "1.prems"(3) have "(30 - j) div 8 = 0" by simp
    with False "1.prems" show ?thesis by (simp add: unpack_fill_end)
  next
    case True
    define m where "m = (30 - (j + 8)) div 8"
    have jm: "(30 - j) div 8 = Suc m"
      using True le_div_geq [of 8 "30 - j"] by (simp add: m_def)
    have inb: "offset + k < length buf" using "1.prems"(4) jm by simp
    define b where "b = uint (buf ! (offset + k))"
    have b: "0 \<le> b" "b < 256"
      using uint_lt2p [of "buf ! (offset + k)"] by (simp_all add: b_def)
    have ba: "byte_at buf (offset + k) = b" using inb by (simp add: byte_at_def b_def)
    define P :: int where "P = 2 ^ j"
    have P: "0 < P" "P \<le> 2 ^ 22"
    proof -
      show "0 < P" by (simp add: P_def)
      have "(2::int) ^ j \<le> 2 ^ 22" using True by (intro power_increasing) simp_all
      then show "P \<le> 2 ^ 22" by (simp add: P_def)
    qed
    have "(b + 1) * P \<le> 256 * P" using b(2) P(1) by (intro mult_right_mono) simp_all
    then have bP: "b * P + P \<le> 256 * P" by (simp add: algebra_simps)
    have bP0: "0 \<le> b * P" using b(1) P(1) by simp
    have "b * 2 ^ j < 2 ^ 31" using bP bP0 P(2) unfolding P_def [symmetric] by simp
    then have shl: "js_shl b j = b * 2 ^ j" using b(1) True by (intro js_shl_small) simp_all
    have and8: "js_and b 0xff = b" using b by (simp add: js_and_mask8)
    define v1 where "v1 = v + b * 2 ^ j"
    have v1: "0 \<le> v1" "v1 < 2 ^ (j + 8)"
    proof -
      show "0 \<le> v1" using "1.prems"(1) bP0 by (simp add: v1_def P_def)
      have "v < P" using "1.prems"(2) by (simp add: P_def)
      with bP have "v + b * P < 256 * P" by linarith
      then show "v1 < 2 ^ (j + 8)" by (simp add: v1_def P_def power_add)
    qed
    have j30: "j + 8 \<le> 30" using True by simp
    have room: "offset + (k + 1) + (30 - (j + 8)) div 8 \<le> length buf"
      using "1.prems"(4) jm by (simp add: m_def)
    from "1.IH" [OF True, unfolded ba and8 shl, folded v1_def, OF v1 j30 room]
    obtain v' where
      uf: "unpack_fill buf offset v1 (j + 8) (k + 1) = (v', j + 8 + 8 * m, k + 1 + m)"
      and v': "v' = v1 + 2 ^ (j + 8) * le_val (take m (drop (offset + (k + 1)) buf))"
      and v'b: "0 \<le> v'" "v' < 2 ^ (j + 8 + 8 * m)"
      unfolding m_def [symmetric] by blast
    have "unpack_fill buf offset v j k = (v', j + 8 * Suc m, k + Suc m)"
      using uf by (simp add: unpack_fill_step [OF True] ba and8 shl v1_def)
    moreover have "v' = v + 2 ^ j * le_val (take (Suc m) (drop (offset + k) buf))"
    proof -
      have "take (Suc m) (drop (offset + k) buf) =
          buf ! (offset + k) # take m (drop (Suc (offset + k)) buf)"
        by (rule take_drop_Cons [OF inb])
      then have "le_val (take (Suc m) (drop (offset + k) buf)) =
          b + 256 * le_val (take m (drop (offset + (k + 1)) buf))"
        by (simp add: b_def)
      then show ?thesis
        unfolding v' v1_def by (simp add: power_add algebra_simps)
    qed
    moreover have "v' < 2 ^ (j + 8 * Suc m)" using v'b(2) by (simp add: add.assoc)
    ultimately show ?thesis unfolding jm using v'b(1) by blast
  qed
qed


lemma polyUnpackW_loop_end: "\<not> i < N \<Longrightarrow> polyUnpackW_loop p buf offset i v j k = Inr p"
  by (subst polyUnpackW_loop.simps) (simp only: if_False)

lemma polyUnpackW_loop_step:
  "i < N \<Longrightarrow> polyUnpackW_loop p buf offset i v j k =
    (case unpack_fill buf offset v j k of
       (v', j', k') \<Rightarrow>
         (let coeff = js_and v' (js_shl 1 23 - 1)
          in if coeff \<ge> Q then Inl (InvalidCoefficient coeff)
             else polyUnpackW_loop (p[i := coeff]) buf offset (i + 1) (js_ushr v' 23)
                    (j' - 23) k'))"
  by (subst polyUnpackW_loop.simps) (simp only: if_True)

lemma low23:
  fixes c R v1 R1 :: int
  assumes "c + 2 ^ 23 * R = v1 + 2 ^ (23 + d) * R1" "0 \<le> c" "c < 2 ^ 23"
  shows "v1 mod 2 ^ 23 = c" and "v1 div 2 ^ 23 + 2 ^ d * R1 = R"
proof -
  have eq: "v1 = c + 2 ^ 23 * (R - 2 ^ d * R1)"
    using assms(1) by (simp add: power_add algebra_simps)
  have "v1 mod 2 ^ 23 = c mod 2 ^ 23"
    unfolding eq by (simp only: mod_mult_self2)
  then show "v1 mod 2 ^ 23 = c" using assms(2,3) by simp
  have "(c + 2 ^ 23 * (R - 2 ^ d * R1)) div 2 ^ 23 = (R - 2 ^ d * R1) + c div 2 ^ 23"
    by (rule div_mult_self2) simp
  then have "v1 div 2 ^ 23 = c div 2 ^ 23 + (R - 2 ^ d * R1)"
    unfolding eq by simp
  then show "v1 div 2 ^ 23 + 2 ^ d * R1 = R" using assms(2,3) by simp
qed

lemma polyUnpackW_loop_spec:
  assumes "length q = N" "\<forall>c \<in> set q. 0 \<le> c \<and> c < Q"
  shows "i \<le> N \<Longrightarrow> 8 * k = 23 * i + j \<Longrightarrow> j < 8 \<Longrightarrow> 0 \<le> v \<Longrightarrow> v < 2 ^ j \<Longrightarrow>
    offset + POLY_Q_SIZE \<le> length buf \<Longrightarrow> length p = N \<Longrightarrow>
    v + 2 ^ j * le_val (take (POLY_Q_SIZE - k) (drop (offset + k) buf)) = val23 (drop i q) \<Longrightarrow>
    polyUnpackW_loop p buf offset i v j k = Inr (take i p @ drop i q)"
proof (induction "N - i" arbitrary: i v j k p)
  case 0
  then have "i = N" by simp
  with "0.prems"(7) assms(1) show ?case by (simp add: polyUnpackW_loop_end)
next
  case (Suc n)
  then have iN: "i < N" by simp
  define c where "c = q ! i"
  have "c \<in> set q" using iN assms(1) by (simp add: c_def)
  then have c: "0 \<le> c" "c < Q" using assms(2) by auto
  then have c23: "c < 2 ^ 23" by (simp add: Q_def)
  have dq: "drop i q = c # drop (i + 1) q"
    using iN assms(1) by (simp add: c_def Cons_nth_drop_Suc)
  define m where "m = (30 - j) div 8"
  define j1 where "j1 = j + 8 * m"
  have j1: "23 \<le> j1" "j1 \<le> 30"
  proof -
    have "8 * ((30 - j) div 8) + (30 - j) mod 8 = 30 - j" by simp
    moreover have "(30 - j) mod 8 < 8" by simp
    ultimately show "23 \<le> j1" "j1 \<le> 30"
      using Suc.prems(3) unfolding j1_def m_def by linarith+
  qed
  have km: "k + m \<le> POLY_Q_SIZE"
    using Suc.prems(2) j1(2) iN by (simp add: j1_def POLY_Q_SIZE_eq N_def)
  have j30: "j \<le> 30" using Suc.prems(3) by simp
  have room: "offset + k + (30 - j) div 8 \<le> length buf"
    using km Suc.prems(6) by (simp add: m_def)
  from unpack_fill_spec [OF Suc.prems(4) Suc.prems(5) j30 room]
  obtain v1 where
    uf: "unpack_fill buf offset v j k = (v1, j1, k + m)"
    and v1: "v1 = v + 2 ^ j * le_val (take m (drop (offset + k) buf))"
    and v1b: "0 \<le> v1" "v1 < 2 ^ j1"
    unfolding m_def [symmetric] j1_def [symmetric] by blast
  define R1 where "R1 = le_val (take (POLY_Q_SIZE - (k + m)) (drop (offset + (k + m)) buf))"
  define d where "d = j1 - 23"
  have j1d: "j1 = 23 + d" using j1(1) by (simp add: d_def)
  have X: "c + 2 ^ 23 * val23 (drop (i + 1) q) = v1 + 2 ^ (23 + d) * R1"
  proof -
    have split: "POLY_Q_SIZE - k = m + (POLY_Q_SIZE - (k + m))" using km by simp
    have len_first: "length (take m (drop (offset + k) buf)) = m"
      using km Suc.prems(6) by simp
    have "le_val (take (POLY_Q_SIZE - k) (drop (offset + k) buf)) =
        le_val (take m (drop (offset + k) buf)) + 2 ^ (8 * m) * R1"
      unfolding split take_add le_val_append len_first R1_def
      by (simp add: add.commute add.left_commute)
    then have "val23 (drop i q) =
        v + 2 ^ j * (le_val (take m (drop (offset + k) buf)) + 2 ^ (8 * m) * R1)"
      using Suc.prems(8) by simp
    also have "\<dots> = v1 + (2 ^ j * 2 ^ (8 * m)) * R1"
      unfolding v1 by (simp add: algebra_simps)
    also have "(2::int) ^ j * 2 ^ (8 * m) = 2 ^ (23 + d)"
      unfolding power_add [symmetric] j1_def [symmetric] j1d ..
    finally show ?thesis unfolding dq by simp
  qed
  note low = low23 [OF X c(1) c23]
  have v31: "v1 < 2 ^ 31"
  proof -
    have "(2::int) ^ j1 \<le> 2 ^ 31" using j1(2) by (intro power_increasing) simp_all
    with v1b(2) show ?thesis by simp
  qed
  have coeff: "js_and v1 (js_shl 1 23 - 1) = c"
    using v1b(1) v31 low(1) by (simp add: js_mask23_const js_and_mask23)
  have ushr: "js_ushr v1 23 = v1 div 2 ^ 23"
    using v1b(1) v31 by (intro js_ushr_small) simp_all
  define v' where "v' = v1 div 2 ^ 23"
  have v'b: "0 \<le> v'" "v' < 2 ^ d"
  proof -
    show "0 \<le> v'" using v1b(1) by (simp add: v'_def pos_imp_zdiv_nonneg_iff)
    have "v1 = 2 ^ 23 * v' + v1 mod 2 ^ 23" by (simp add: v'_def)
    moreover have "0 \<le> v1 mod 2 ^ 23" by simp
    moreover have "v1 < 2 ^ 23 * 2 ^ d" using v1b(2) unfolding j1d power_add .
    ultimately have "2 ^ 23 * v' < 2 ^ 23 * 2 ^ d" by linarith
    then show "v' < 2 ^ d" by simp
  qed
  have d8: "d < 8" using j1(2) by (simp add: d_def)
  have k1: "8 * (k + m) = 23 * (i + 1) + d"
    using Suc.prems(2) j1d by (simp add: j1_def)
  have inv: "v' + 2 ^ d * le_val (take (POLY_Q_SIZE - (k + m)) (drop (offset + (k + m)) buf)) =
      val23 (drop (i + 1) q)"
    using low(2) by (simp add: v'_def R1_def)
  define p1 where "p1 = p[i := c]"
  have lp1: "length p1 = N" using Suc.prems(7) by (simp add: p1_def)
  have n: "n = N - (i + 1)" using Suc.hyps(2) by simp
  have i1: "i + 1 \<le> N" using iN by simp
  have IH: "polyUnpackW_loop p1 buf offset (i + 1) v' d (k + m) =
      Inr (take (i + 1) p1 @ drop (i + 1) q)"
    by (rule Suc.hyps(1) [OF n i1 k1 d8 v'b Suc.prems(6) lp1 inv])
  have "take (i + 1) p1 = take i p @ [c]"
    using iN Suc.prems(7) by (simp add: p1_def take_Suc_conv_app_nth)
  then have res: "take (i + 1) p1 @ drop (i + 1) q = take i p @ drop i q"
    unfolding dq by simp
  have "polyUnpackW_loop p buf offset i v j k = polyUnpackW_loop p1 buf offset (i + 1) v' d (k + m)"
    using c(2)
    by (simp add: polyUnpackW_loop_step [OF iN] uf Let_def coeff ushr p1_def v'_def d_def)
  then show ?case using IH res by simp
qed

lemma polyUnpackW_spec:
  assumes "length q = N" "\<forall>c \<in> set q. 0 \<le> c \<and> c < Q"
    "offset + POLY_Q_SIZE \<le> length buf"
    "le_val (take POLY_Q_SIZE (drop offset buf)) = val23 q"
  shows "polyUnpackW (newPoly N) buf offset = Inr q"
  using polyUnpackW_loop_spec [OF assms(1,2), of 0 0 0 0 offset buf "newPoly N"] assms(3,4)
  by (simp add: polyUnpackW_def newPoly_def)


subsection \<open>Packing and unpacking arrays of polynomials\<close>

lemma well_shapedD:
  assumes "well_shaped polys dim' K_iter" "it < K_iter" "jj < dim'"
  shows "length (polys ! it) = dim'" "length (polys ! it ! jj) = N"
    "\<forall>c \<in> set (polys ! it ! jj). 0 \<le> c \<and> c < Q"
    "\<forall>c \<in> set (polys ! it ! jj). 0 \<le> c \<and> c < 2 ^ 23"
proof -
  from assms(1,2) have row: "length (polys ! it) = dim' \<and> list_all normal_poly (polys ! it)"
    by (simp add: well_shaped_def list_all_length)
  then show "length (polys ! it) = dim'" by simp
  from row assms(3) have "normal_poly (polys ! it ! jj)" by (simp add: list_all_length)
  then show "length (polys ! it ! jj) = N" "\<forall>c \<in> set (polys ! it ! jj). 0 \<le> c \<and> c < Q"
    by (simp_all add: normal_poly_def list_all_iff)
  then show "\<forall>c \<in> set (polys ! it ! jj). 0 \<le> c \<and> c < 2 ^ 23"
    by (auto simp: Q_def)
qed

lemma well_shaped_row:
  assumes "well_shaped polys dim' K_iter" "it < K_iter"
  shows "length (polys ! it) = dim'"
  using assms by (simp add: well_shaped_def list_all_length)

lemma slot_bound:
  assumes "it < K_iter" "jj < (dim'::nat)"
  shows "(it * dim' + jj) * POLY_Q_SIZE + POLY_Q_SIZE \<le> K_iter * dim' * POLY_Q_SIZE"
proof -
  have "it * dim' + jj + 1 \<le> it * dim' + dim'" using assms(2) by simp
  also have "\<dots> = (it + 1) * dim'" by simp
  also have "\<dots> \<le> K_iter * dim'" using assms(1) by (intro mult_le_mono1) simp
  finally have "(it * dim' + jj + 1) * POLY_Q_SIZE \<le> K_iter * dim' * POLY_Q_SIZE"
    by (rule mult_le_mono1)
  then show ?thesis by (simp add: algebra_simps)
qed

lemma slot_less:
  assumes "it < iter \<or> it = iter \<and> jj < j" "jj < (dim'::nat)"
  shows "(it * dim' + jj) * POLY_Q_SIZE + POLY_Q_SIZE \<le> (iter * dim' + j) * POLY_Q_SIZE"
proof -
  have "it * dim' + jj + 1 \<le> iter * dim' + j"
  proof (cases "it < iter")
    case True
    have "it * dim' + jj + 1 \<le> (it + 1) * dim'" using assms(2) by simp
    also have "\<dots> \<le> iter * dim'" using True by (intro mult_le_mono1) simp
    finally show ?thesis by simp
  next
    case False
    with assms(1) show ?thesis by simp
  qed
  then have "(it * dim' + jj + 1) * POLY_Q_SIZE \<le> (iter * dim' + j) * POLY_Q_SIZE"
    by (rule mult_le_mono1)
  then show ?thesis by (simp add: algebra_simps)
qed

lemma seg_frame:
  assumes "take a buf1 = take a buf" "s * POLY_Q_SIZE + POLY_Q_SIZE \<le> a"
  shows "seg buf1 s = seg buf s"
proof -
  have "seg buf1 s = drop (s * POLY_Q_SIZE) (take (POLY_Q_SIZE + s * POLY_Q_SIZE) (take a buf1))"
    using assms(2) by (simp add: seg_def take_drop min_def add.commute)
  also have "\<dots> = seg buf s"
    unfolding assms(1) using assms(2) by (simp add: seg_def take_drop min_def add.commute)
  finally show ?thesis .
qed

lemma packPolys_row_end: "\<not> j < dim' \<Longrightarrow> packPolys_row polys dim' iter j buf = Inr buf"
  by (subst packPolys_row.simps) (simp only: if_False)

lemma packPolys_row_step:
  "j < dim' \<Longrightarrow> iter < length polys \<and> j < length (polys ! iter) \<Longrightarrow>
    packPolys_row polys dim' iter j buf =
      packPolys_row polys dim' iter (j + 1)
        (polyPackW (polys ! iter ! j) buf ((iter * dim' + j) * POLY_Q_SIZE))"
  by (subst packPolys_row.simps) (simp only: if_True simp_thms)

text \<open>The slots written so far hold the numbers of their polynomials.\<close>

lemma packPolys_row_spec:
  assumes "well_shaped polys dim' K_iter" "iter < K_iter"
  shows "j \<le> dim' \<Longrightarrow> length buf = K_iter * dim' * POLY_Q_SIZE \<Longrightarrow>
    (\<forall>it jj. (it < iter \<or> it = iter \<and> jj < j) \<and> jj < dim' \<longrightarrow>
       le_val (seg buf (it * dim' + jj)) = val23 (polys ! it ! jj)) \<Longrightarrow>
    \<exists>buf'. packPolys_row polys dim' iter j buf = Inr buf' \<and>
      length buf' = K_iter * dim' * POLY_Q_SIZE \<and>
      (\<forall>it jj. it < iter + 1 \<and> jj < dim' \<longrightarrow>
         le_val (seg buf' (it * dim' + jj)) = val23 (polys ! it ! jj))"
proof (induction "dim' - j" arbitrary: j buf)
  case 0
  then have "j = dim'" by simp
  with "0.prems" show ?case
    by (auto simp: packPolys_row_end less_Suc_eq)
next
  case (Suc n)
  then have j: "j < dim'" by simp
  note ws = well_shapedD [OF assms(1) assms(2) j]
  define off where "off = (iter * dim' + j) * POLY_Q_SIZE"
  define buf1 where "buf1 = polyPackW (polys ! iter ! j) buf off"
  have room: "off + POLY_Q_SIZE \<le> length buf"
    using slot_bound [OF assms(2) j] Suc.prems(2) by (simp add: off_def)
  note pk = polyPackW_spec [OF ws(2) ws(4) room, folded buf1_def]
  have len1: "length buf1 = K_iter * dim' * POLY_Q_SIZE" using pk(1) Suc.prems(2) by simp
  have inv1: "\<forall>it jj. (it < iter \<or> it = iter \<and> jj < j + 1) \<and> jj < dim' \<longrightarrow>
       le_val (seg buf1 (it * dim' + jj)) = val23 (polys ! it ! jj)"
  proof (intro allI impI)
    fix it jj
    assume a: "(it < iter \<or> it = iter \<and> jj < j + 1) \<and> jj < dim'"
    show "le_val (seg buf1 (it * dim' + jj)) = val23 (polys ! it ! jj)"
    proof (cases "it = iter \<and> jj = j")
      case True
      then show ?thesis using pk(4) by (simp add: seg_def off_def)
    next
      case False
      with a have old: "it < iter \<or> it = iter \<and> jj < j" by auto
      from a have jj: "jj < dim'" by simp
      have "seg buf1 (it * dim' + jj) = seg buf (it * dim' + jj)"
        using pk(2) slot_less [OF old jj] by (intro seg_frame [of off]) (simp_all add: off_def)
      with Suc.prems(3) old jj show ?thesis by simp
    qed
  qed
  have n: "n = dim' - (j + 1)" using Suc.hyps(2) by simp
  have j1: "j + 1 \<le> dim'" using j by simp
  have inl: "iter < length polys \<and> j < length (polys ! iter)"
    using assms ws(1) j by (simp add: well_shaped_def)
  from Suc.hyps(1) [OF n j1 len1 inv1]
  show ?case by (simp add: packPolys_row_step [OF j inl] buf1_def off_def)
qed

lemma packPolys_loop_end:
  "\<not> iter < K_iter \<Longrightarrow> packPolys_loop polys dim' K_iter iter buf = Inr buf"
  by (subst packPolys_loop.simps) (simp only: if_False)

lemma packPolys_loop_step:
  "iter < K_iter \<Longrightarrow> packPolys_loop polys dim' K_iter iter buf =
    (case packPolys_row polys dim' iter 0 buf of
       Inl e \<Rightarrow> Inl e
     | Inr buf' \<Rightarrow> packPolys_loop polys dim' K_iter (iter + 1) buf')"
  by (subst packPolys_loop.simps) (simp only: if_True)

lemma packPolys_loop_spec:
  assumes "well_shaped polys dim' K_iter"
  shows "iter \<le> K_iter \<Longrightarrow> length buf = K_iter * dim' * POLY_Q_SIZE \<Longrightarrow>
    (\<forall>it jj. it < iter \<and> jj < dim' \<longrightarrow>
       le_val (seg buf (it * dim' + jj)) = val23 (polys ! it ! jj)) \<Longrightarrow>
    \<exists>buf'. packPolys_loop polys dim' K_iter iter buf = Inr buf' \<and>
      length buf' = K_iter * dim' * POLY_Q_SIZE \<and>
      (\<forall>it jj. it < K_iter \<and> jj < dim' \<longrightarrow>
         le_val (seg buf' (it * dim' + jj)) = val23 (polys ! it ! jj))"
proof (induction "K_iter - iter" arbitrary: iter buf)
  case 0
  then have "iter = K_iter" by simp
  with "0.prems" show ?case by (simp add: packPolys_loop_end)
next
  case (Suc n)
  then have it: "iter < K_iter" by simp
  have inv0: "\<forall>it jj. (it < iter \<or> it = iter \<and> jj < 0) \<and> jj < dim' \<longrightarrow>
       le_val (seg buf (it * dim' + jj)) = val23 (polys ! it ! jj)"
    using Suc.prems(3) by simp
  from packPolys_row_spec [OF assms it _ Suc.prems(2) inv0]
  obtain buf1 where row: "packPolys_row polys dim' iter 0 buf = Inr buf1"
    and len1: "length buf1 = K_iter * dim' * POLY_Q_SIZE"
    and inv1: "\<forall>it jj. it < iter + 1 \<and> jj < dim' \<longrightarrow>
         le_val (seg buf1 (it * dim' + jj)) = val23 (polys ! it ! jj)"
    by auto
  have n: "n = K_iter - (iter + 1)" using Suc.hyps(2) by simp
  have i1: "iter + 1 \<le> K_iter" using it by simp
  from Suc.hyps(1) [OF n i1 len1 inv1]
  show ?case by (simp add: packPolys_loop_step [OF it] row)
qed

lemma packPolys_spec:
  assumes "well_shaped polys dim' K_iter"
  shows "\<exists>buf. packPolys polys dim' K_iter = Inr buf \<and>
      length buf = K_iter * dim' * POLY_Q_SIZE \<and>
      (\<forall>it jj. it < K_iter \<and> jj < dim' \<longrightarrow>
         le_val (seg buf (it * dim' + jj)) = val23 (polys ! it ! jj))"
  unfolding packPolys_def
  by (rule packPolys_loop_spec [OF assms]) simp_all


lemma unpackPolys_row_end: "\<not> j < dim' \<Longrightarrow> unpackPolys_row buf dim' iter j acc = Inr acc"
  by (subst unpackPolys_row.simps) (simp only: if_False)

lemma unpackPolys_row_step:
  "j < dim' \<Longrightarrow> unpackPolys_row buf dim' iter j acc =
    (case polyUnpackW (newPoly N) buf ((iter * dim' + j) * POLY_Q_SIZE) of
       Inl e \<Rightarrow> Inl e
     | Inr p \<Rightarrow> unpackPolys_row buf dim' iter (j + 1) (acc @ [p]))"
  by (subst unpackPolys_row.simps) (simp only: if_True)

lemma unpackPolys_row_spec:
  assumes "well_shaped polys dim' K_iter" "iter < K_iter"
    "length buf = K_iter * dim' * POLY_Q_SIZE"
    "\<forall>it jj. it < K_iter \<and> jj < dim' \<longrightarrow>
       le_val (seg buf (it * dim' + jj)) = val23 (polys ! it ! jj)"
  shows "j \<le> dim' \<Longrightarrow> unpackPolys_row buf dim' iter j acc = Inr (acc @ drop j (polys ! iter))"
proof (induction "dim' - j" arbitrary: j acc)
  case 0
  then have "j = dim'" by simp
  then show ?case
    using well_shaped_row [OF assms(1,2)] by (simp add: unpackPolys_row_end)
next
  case (Suc n)
  then have j: "j < dim'" by simp
  note ws = well_shapedD [OF assms(1) assms(2) j]
  define off where "off = (iter * dim' + j) * POLY_Q_SIZE"
  have room: "off + POLY_Q_SIZE \<le> length buf"
    using slot_bound [OF assms(2) j] assms(3) by (simp add: off_def)
  have enc: "le_val (take POLY_Q_SIZE (drop off buf)) = val23 (polys ! iter ! j)"
    using assms(4) assms(2) j by (simp add: seg_def off_def)
  have un: "polyUnpackW (newPoly N) buf off = Inr (polys ! iter ! j)"
    by (rule polyUnpackW_spec [OF ws(2) ws(3) room enc])
  have n: "n = dim' - (j + 1)" using Suc.hyps(2) by simp
  have j1: "j + 1 \<le> dim'" using j by simp
  have "drop j (polys ! iter) = polys ! iter ! j # drop (j + 1) (polys ! iter)"
    using ws(1) j by (simp add: Cons_nth_drop_Suc)
  then show ?case
    using Suc.hyps(1) [OF n j1, of "acc @ [polys ! iter ! j]"]
    by (simp add: unpackPolys_row_step [OF j] un [unfolded off_def])
qed

lemma unpackPolys_loop_end:
  "\<not> iter < K_iter \<Longrightarrow> unpackPolys_loop buf dim' K_iter iter res = Inr res"
  by (subst unpackPolys_loop.simps) (simp only: if_False)

lemma unpackPolys_loop_step:
  "iter < K_iter \<Longrightarrow> unpackPolys_loop buf dim' K_iter iter res =
    (case unpackPolys_row buf dim' iter 0 [] of
       Inl e \<Rightarrow> Inl e
     | Inr polys \<Rightarrow> unpackPolys_loop buf dim' K_iter (iter + 1) (res @ [polys]))"
  by (subst unpackPolys_loop.simps) (simp only: if_True)

lemma unpackPolys_loop_spec:
  assumes "well_shaped polys dim' K_iter"
    "length buf = K_iter * dim' * POLY_Q_SIZE"
    "\<forall>it jj. it < K_iter \<and> jj < dim' \<longrightarrow>
       le_val (seg buf (it * dim' + jj)) = val23 (polys ! it ! jj)"
  shows "iter \<le> K_iter \<Longrightarrow>
    unpackPolys_loop buf dim' K_iter iter res = Inr (res @ drop iter polys)"
proof (induction "K_iter - iter" arbitrary: iter res)
  case 0
  then have "iter = K_iter" by simp
  then show ?case using assms(1) by (simp add: unpackPolys_loop_end well_shaped_def)
next
  case (Suc n)
  then have it: "iter < K_iter" by simp
  have row: "unpackPolys_row buf dim' iter 0 [] = Inr (polys ! iter)"
    using unpackPolys_row_spec [OF assms(1) it assms(2,3), of 0 "[]"] by simp
  have n: "n = K_iter - (iter + 1)" using Suc.hyps(2) by simp
  have i1: "iter + 1 \<le> K_iter" using it by simp
  have "drop iter polys = polys ! iter # drop (iter + 1) polys"
    using it assms(1) by (simp add: well_shaped_def Cons_nth_drop_Suc)
  then show ?case
    using Suc.hyps(1) [OF n i1, of "res @ [polys ! iter]"]
    by (simp add: unpackPolys_loop_step [OF it] row)
qed

text \<open>C10: for an array of \<open>K_iter\<close> rows of \<open>dim\<close> polynomials, each of 256 coefficients in
  \<open>[0, Q)\<close>, \<open>packPolys\<close> returns a buffer from which \<open>unpackPolys\<close> returns the array
  again, coefficient for coefficient.\<close>

theorem packPolys_roundtrip:
  assumes "well_shaped polys dim' K_iter"
  shows "\<exists>buf. packPolys polys dim' K_iter = Inr buf \<and> unpackPolys buf dim' K_iter = Inr polys"
proof -
  from packPolys_spec [OF assms] obtain buf where
    pk: "packPolys polys dim' K_iter = Inr buf"
    and len: "length buf = K_iter * dim' * POLY_Q_SIZE"
    and enc: "\<forall>it jj. it < K_iter \<and> jj < dim' \<longrightarrow>
         le_val (seg buf (it * dim' + jj)) = val23 (polys ! it ! jj)"
    by blast
  have "unpackPolys_loop buf dim' K_iter 0 [] = Inr ([] @ drop 0 polys)"
    by (rule unpackPolys_loop_spec [OF assms len enc]) simp
  then have "unpackPolys buf dim' K_iter = Inr polys"
    using len by (simp add: unpackPolys_def Let_def)
  with pk show ?thesis by blast
qed

theorem packPolys_roundtrip_witness:
  "well_shaped pack_example 1 1 \<and>
   (\<exists>buf. packPolys pack_example 1 1 = Inr buf \<and> unpackPolys buf 1 1 = Inr pack_example)"
proof -
  have ws: "well_shaped pack_example 1 1"
    by (simp add: well_shaped_def pack_example_def normal_poly_def N_def Q_def list_all_iff)
  from packPolys_roundtrip [OF ws] ws show ?thesis by simp
qed

section \<open>Round 3: binding of the commitments\<close>

declare hash_diff.simps [simp del] verify_commitments.simps [simp del]

lemma byte_xor_zero: "(x :: byte) XOR y = 0 \<longleftrightarrow> x = y"
  by (metis bit.xor_self xor.left_neutral xor.assoc)

lemma hash_diff_zero:
  "hash_diff expected stored j d = 0 \<longleftrightarrow>
    d = 0 \<and> (\<forall>j' \<in> {j ..< length expected}. expected ! j' = stored_byte stored j')"
proof (induction expected stored j d rule: hash_diff.induct)
  case (1 expected stored j d)
  show ?case
  proof (cases "j < length expected")
    case False
    then show ?thesis by (subst hash_diff.simps) simp
  next
    case True
    then have split: "{j ..< length expected} = insert j {j + 1 ..< length expected}" by auto
    have "hash_diff expected stored j d =
        hash_diff expected stored (j + 1) (d OR (expected ! j XOR stored_byte stored j))"
      using True by (subst hash_diff.simps) simp
    then show ?thesis
      unfolding split using "1.IH" [OF True] by (simp add: or_eq_0_iff byte_xor_zero)
  qed
qed

lemma hash_diff_code:
  "hash_diff (hashCommitment shake256 tr (ids ! i) (commitments ! i)) (hashes ! i) 0 0 = 0 \<longleftrightarrow>
    code_hash_matches shake256 tr ids hashes commitments i"
proof -
  have "(\<forall>j' \<in> {0 ..< length e}. e ! j' = stored_byte s j') \<longleftrightarrow>
      e = map (stored_byte s) [0 ..< length e]" for e s
  proof
    assume "\<forall>j' \<in> {0 ..< length e}. e ! j' = stored_byte s j'"
    then show "e = map (stored_byte s) [0 ..< length e]"
      by (intro nth_equalityI) simp_all
  next
    assume eq: "e = map (stored_byte s) [0 ..< length e]"
    show "\<forall>j' \<in> {0 ..< length e}. e ! j' = stored_byte s j'"
    proof
      fix j' assume "j' \<in> {0 ..< length e}"
      then have j': "j' < length e" by simp
      have "e ! j' = map (stored_byte s) [0 ..< length e] ! j'" using eq by simp
      also have "\<dots> = stored_byte s j'" using j' by simp
      finally show "e ! j' = stored_byte s j'" .
    qed
  qed
  then show ?thesis
    by (simp add: hash_diff_zero code_hash_matches_def Let_def)
qed

lemma code_matches_spec:
  assumes "length (hashes ! i) = length (hashCommitment shake256 tr (ids ! i) (commitments ! i))"
  shows "code_hash_matches shake256 tr ids hashes commitments i \<longleftrightarrow>
    spec_hash_matches shake256 tr ids hashes commitments i"
proof -
  have "map (stored_byte s) [0 ..< length s] = s" for s
    by (rule nth_equalityI) (simp_all add: stored_byte_def)
  then have "map (stored_byte (hashes ! i))
      [0 ..< length (hashCommitment shake256 tr (ids ! i) (commitments ! i))] = hashes ! i"
    unfolding assms [symmetric] .
  moreover have "(word_of_nat (n mod 256) :: byte) = of_nat n" for n
    by (simp add: word_eq_iff_unsigned [where ?'a = nat] unsigned_of_nat take_bit_eq_mod)
  ultimately show ?thesis
    by (auto simp add: code_hash_matches_def spec_hash_matches_def hashCommitment_def Let_def)
qed

lemma verify_commitments_first:
  assumes "i0 < length commitments" "j \<le> i0"
    "\<not> code_hash_matches shake256 tr ids hashes commitments i0"
    "\<forall>i. j \<le> i \<and> i < i0 \<longrightarrow> code_hash_matches shake256 tr ids hashes commitments i"
  shows "verify_commitments shake256 tr ids hashes commitments j =
    Inl (CommitmentHashMismatch (ids ! i0))"
  using assms
proof (induction "i0 - j" arbitrary: j)
  case 0
  then have "j = i0" by simp
  with "0.prems" show ?case
    by (subst verify_commitments.simps) (simp add: hash_diff_code)
next
  case (Suc n)
  then have j: "j < i0" by simp
  with Suc.prems have m: "code_hash_matches shake256 tr ids hashes commitments j" by simp
  have "verify_commitments shake256 tr ids hashes commitments j =
      verify_commitments shake256 tr ids hashes commitments (j + 1)"
    using j Suc.prems(1) m by (subst verify_commitments.simps) (simp add: hash_diff_code)
  moreover have "verify_commitments shake256 tr ids hashes commitments (j + 1) =
      Inl (CommitmentHashMismatch (ids ! i0))"
    using Suc.hyps(2) j Suc.prems by (intro Suc.hyps(1)) simp_all
  ultimately show ?case by simp
qed

lemma verify_commitments_all:
  assumes "\<forall>i. j \<le> i \<and> i < length commitments \<longrightarrow>
    code_hash_matches shake256 tr ids hashes commitments i"
  shows "verify_commitments shake256 tr ids hashes commitments j = Inr ()"
  using assms
proof (induction "length commitments - j" arbitrary: j)
  case 0
  then show ?case by (subst verify_commitments.simps) simp
next
  case (Suc n)
  then have j: "j < length commitments" by simp
  with Suc.prems have m: "code_hash_matches shake256 tr ids hashes commitments j" by simp
  have "verify_commitments shake256 tr ids hashes commitments j =
      verify_commitments shake256 tr ids hashes commitments (j + 1)"
    using j m by (subst verify_commitments.simps) (simp add: hash_diff_code)
  moreover have "verify_commitments shake256 tr ids hashes commitments (j + 1) = Inr ()"
    using Suc.hyps(2) Suc.prems by (intro Suc.hyps(1)) simp_all
  ultimately show ?case by simp
qed


lemma round3_unfold:
  assumes "\<not> r2_destroyed sb" "length commitments = length (r2_activePartyIds sb)"
  shows "round3 hash respond p params tr commitments sa sb =
    (case verify_commitments hash tr (r2_activePartyIds sb) (r2_hashes sb) commitments 0 of
       Inl e \<Rightarrow> Inl e
     | Inr u \<Rightarrow> round3_respond respond p params commitments sa sb)"
  using assms by (simp add: round3_def round3_respond_def split: sum.split)

text \<open>C7, as the code has it: for a state of round 2 whose stored round-1 hashes have 32
  bytes each, the length of a SHAKE256 output asked for 32 bytes, \<open>round3\<close> recomputes
  \<open>SHAKE256(tr || single-byte(partyId) || commitment, 32)\<close> for every active party stored in
  round 2 and compares it byte for byte with the stored hash of that party. On a mismatch it
  throws the error naming the first party whose hash differs, and computes no response; when
  all hashes agree it goes on to the response. The lengths themselves are not compared by
  the code.\<close>

theorem round3_commitment_check:
  assumes "\<not> r2_destroyed sb"
    and "length commitments = length (r2_activePartyIds sb)"
    and "length (r2_hashes sb) = length (r2_activePartyIds sb)"
    and "\<forall>h \<in> set (r2_hashes sb). length h = 32"
    and "\<forall>x. length (hash 32 x) = 32"
  shows "((\<exists>i < length commitments.
            \<not> spec_hash_matches hash tr (r2_activePartyIds sb) (r2_hashes sb) commitments i)
          \<longrightarrow> (\<exists>i < length commitments.
            \<not> spec_hash_matches hash tr (r2_activePartyIds sb) (r2_hashes sb) commitments i \<and>
            (\<forall>i' < i.
              spec_hash_matches hash tr (r2_activePartyIds sb) (r2_hashes sb) commitments i') \<and>
            round3 hash respond p params tr commitments sa sb =
              Inl (CommitmentHashMismatch (r2_activePartyIds sb ! i)))) \<and>
         ((\<forall>i < length commitments.
            spec_hash_matches hash tr (r2_activePartyIds sb) (r2_hashes sb) commitments i)
          \<longrightarrow> round3 hash respond p params tr commitments sa sb =
              round3_respond respond p params commitments sa sb)"
proof -
  let ?ids = "r2_activePartyIds sb" and ?hs = "r2_hashes sb"
  let ?spec = "spec_hash_matches hash tr ?ids ?hs commitments"
  let ?code = "code_hash_matches hash tr ?ids ?hs commitments"
  have same: "?code i \<longleftrightarrow> ?spec i" if "i < length commitments" for i
  proof -
    from that assms(2,3) have "?hs ! i \<in> set ?hs" by simp
    with assms(4) have "length (?hs ! i) = 32" by blast
    with assms(5) show ?thesis
      by (intro code_matches_spec) (simp add: hashCommitment_def)
  qed
  note unfold = round3_unfold [OF assms(1,2), of hash respond p params tr sa]
  show ?thesis
  proof (intro conjI impI)
    assume "\<exists>i < length commitments. \<not> ?spec i"
    then obtain i0 where i0: "i0 < length commitments" "\<not> ?spec i0"
      and least: "\<forall>i' < i0. \<not> (i' < length commitments \<and> \<not> ?spec i')"
      using exists_least_iff [of "\<lambda>i. i < length commitments \<and> \<not> ?spec i"] by auto
    from least i0(1) have before: "\<forall>i' < i0. ?spec i'" by auto
    have "verify_commitments hash tr ?ids ?hs commitments 0 =
        Inl (CommitmentHashMismatch (?ids ! i0))"
      using i0 before same by (intro verify_commitments_first) auto
    then have "round3 hash respond p params tr commitments sa sb =
        Inl (CommitmentHashMismatch (?ids ! i0))"
      by (simp add: unfold)
    with i0 before show "\<exists>i < length commitments. \<not> ?spec i \<and> (\<forall>i' < i. ?spec i') \<and>
        round3 hash respond p params tr commitments sa sb =
          Inl (CommitmentHashMismatch (?ids ! i))"
      by blast
  next
    assume "\<forall>i < length commitments. ?spec i"
    then have "verify_commitments hash tr ?ids ?hs commitments 0 = Inr ()"
      using same by (intro verify_commitments_all) auto
    then show "round3 hash respond p params tr commitments sa sb =
        round3_respond respond p params commitments sa sb"
      by (simp add: unfold)
  qed
qed

theorem round3_commitment_check_witness:
  "\<not> r2_destroyed example_round2 \<and>
   length [[1], [2 :: byte]] = length (r2_activePartyIds example_round2) \<and>
   length (r2_hashes example_round2) = length (r2_activePartyIds example_round2) \<and>
   list_all (\<lambda>h. length h = 32) (r2_hashes example_round2) \<and>
   (\<forall>x. length (zero_hash 32 x) = 32) \<and>
   round3 zero_hash (\<lambda>act mu ws stws. Inr []) prims44 params_2_3_44 [] [[1], [2]]
     example_round1 example_round2 = Inl (CommitmentHashMismatch 2)"
proof -
  have a: "\<not> r2_destroyed example_round2"
    "length [[1], [2 :: byte]] = length (r2_activePartyIds example_round2)"
    "length (r2_hashes example_round2) = length (r2_activePartyIds example_round2)"
    "\<forall>h \<in> set (r2_hashes example_round2). length h = 32"
    "\<forall>x. length (zero_hash 32 x) = 32"
    by (simp_all add: example_round2_def zero_hash_def)
  have m0: "spec_hash_matches zero_hash [] (r2_activePartyIds example_round2)
      (r2_hashes example_round2) [[1], [2]] 0"
    by (simp add: spec_hash_matches_def hashCommitment_def zero_hash_def example_round2_def)
  have m1: "\<not> spec_hash_matches zero_hash [] (r2_activePartyIds example_round2)
      (r2_hashes example_round2) [[1], [2]] 1"
    by (simp add: spec_hash_matches_def hashCommitment_def zero_hash_def example_round2_def
        replicate_eq_replicate)
  have ex: "\<exists>i < length [[1], [2 :: byte]].
      \<not> spec_hash_matches zero_hash [] (r2_activePartyIds example_round2)
        (r2_hashes example_round2) [[1], [2]] i"
    using m1 by (intro exI [of _ 1]) simp
  from round3_commitment_check [where sb = example_round2 and commitments = "[[1], [2]]"
      and hash = zero_hash and tr = "[]" and respond = "\<lambda>act mu ws stws. Inr []"
      and p = prims44 and params = params_2_3_44 and sa = example_round1,
      OF a, THEN conjunct1, THEN mp, OF ex]
  obtain i where i: "i < length [[1], [2 :: byte]]"
    "\<not> spec_hash_matches zero_hash [] (r2_activePartyIds example_round2)
        (r2_hashes example_round2) [[1], [2]] i"
    "round3 zero_hash (\<lambda>act mu ws stws. Inr []) prims44 params_2_3_44 [] [[1], [2]]
       example_round1 example_round2 =
     Inl (CommitmentHashMismatch (r2_activePartyIds example_round2 ! i))"
    by blast
  from i(1,2) m0 have "i = 1" by (cases "i = 0") auto
  with i(3) have "round3 zero_hash (\<lambda>act mu ws stws. Inr []) prims44 params_2_3_44 [] [[1], [2]]
       example_round1 example_round2 = Inl (CommitmentHashMismatch 2)"
    by (simp add: example_round2_def)
  moreover have "list_all (\<lambda>h. length h = 32) (r2_hashes example_round2)"
    by (simp add: example_round2_def)
  ultimately show ?thesis using a(1,2,3,5) by blast
qed

subsection \<open>Stored hashes of another length\<close>

lemma packPolys_unpackPolys:
  assumes "well_shaped polys dim' K_iter"
  shows "\<exists>buf. packPolys polys dim' K_iter = Inr buf \<and> unpackPolys buf dim' K_iter = Inr polys"
proof -
  from packPolys_spec [OF assms] obtain buf where
    pk: "packPolys polys dim' K_iter = Inr buf"
    and len: "length buf = K_iter * dim' * POLY_Q_SIZE"
    and enc: "\<forall>it jj. it < K_iter \<and> jj < dim' \<longrightarrow>
         le_val (seg buf (it * dim' + jj)) = val23 (polys ! it ! jj)"
    by blast
  have "unpackPolys_loop buf dim' K_iter 0 [] = Inr ([] @ drop 0 polys)"
    by (rule unpackPolys_loop_spec [OF assms len enc]) simp
  then have "unpackPolys buf dim' K_iter = Inr polys"
    using len by (simp add: unpackPolys_def Let_def)
  with pk show ?thesis by blast
qed

lemma zero_commitment_unpacks: "unpackPolys zero_commitment 4 3 = Inr zero_polys"
proof -
  have "well_shaped zero_polys 4 3"
    by (simp add: well_shaped_def zero_polys_def normal_poly_def newPoly_def Q_def list_all_iff)
  from packPolys_unpackPolys [OF this] show ?thesis
    by (auto simp add: zero_commitment_def)
qed

text \<open>A stored hash of 33 bytes whose first 32 are the recomputed hash: it is not the
  recomputed hash, and \<open>round3\<close> answers with the response.\<close>

theorem round3_long_hash_accepted:
  "\<not> spec_hash_matches zero_hash [] (r2_activePartyIds long_round2) (r2_hashes long_round2)
       [zero_commitment, zero_commitment] 0 \<and>
   round3 zero_hash (\<lambda>act mu ws stws. Inr []) prims44 params_2_3_44 []
     [zero_commitment, zero_commitment] example_round1 long_round2 = Inr []"
proof -
  have ne: "\<not> spec_hash_matches zero_hash [] (r2_activePartyIds long_round2)
      (r2_hashes long_round2) [zero_commitment, zero_commitment] 0"
    by (simp add: spec_hash_matches_def zero_hash_def long_round2_def replicate_eq_replicate)
  have c: "code_hash_matches zero_hash [] (r2_activePartyIds long_round2) (r2_hashes long_round2)
      [zero_commitment, zero_commitment] i" if "i < 2" for i
  proof -
    have "i = 0 \<or> i = 1" using that by auto
    then show ?thesis
      by (auto simp add: code_hash_matches_def hashCommitment_def zero_hash_def long_round2_def
          stored_byte_def Let_def intro!: nth_equalityI)
  qed
  have "verify_commitments zero_hash [] (r2_activePartyIds long_round2) (r2_hashes long_round2)
      [zero_commitment, zero_commitment] 0 = Inr ()"
    by (rule verify_commitments_all) (simp add: c)
  moreover have "unpack_all 4 3 [zero_commitment, zero_commitment] = Inr [zero_polys, zero_polys]"
    by (simp add: zero_commitment_unpacks)
  ultimately have "round3 zero_hash (\<lambda>act mu ws stws. Inr []) prims44 params_2_3_44 []
     [zero_commitment, zero_commitment] example_round1 long_round2 = Inr []"
    by (simp add: round3_def long_round2_def prims44_def params_2_3_44_def example_round1_def)
  with ne show ?thesis by blast
qed

section \<open>Verification: booleans and errors\<close>

declare rej_block.simps [simp del] verify_Az.simps [simp del] verify_rows.simps [simp del]

lemma rej_block_end: "\<not> (j < N \<and> i + 3 \<le> length b) \<Longrightarrow> rej_block b i r j = (r, j)"
  by (subst rej_block.simps) (simp only: if_False)

lemma rej_block_take:
  "j < N \<Longrightarrow> i + 3 \<le> length b \<Longrightarrow> triple_val b i < Q \<Longrightarrow>
    rej_block b i r j = rej_block b (i + 3) (r[j := triple_val b i]) (j + 1)"
  by (subst rej_block.simps) (simp add: Let_def)

lemma rej_block_skip:
  "j < N \<Longrightarrow> i + 3 \<le> length b \<Longrightarrow> \<not> triple_val b i < Q \<Longrightarrow>
    rej_block b i r j = rej_block b (i + 3) r j"
  by (subst rej_block.simps) (simp add: Let_def)

lemma rej_block_mono: "j \<le> snd (rej_block b i r j)"
proof (induction b i r j rule: rej_block.induct)
  case (1 b i r j)
  show ?case
  proof (cases "j < N \<and> i + 3 \<le> length b")
    case False
    then show ?thesis by (simp add: rej_block_end)
  next
    case True
    show ?thesis
    proof (cases "triple_val b i < Q")
      case t: True
      have "j + 1 \<le> snd (rej_block b (i + 3) (r[j := triple_val b i]) (j + 1))"
        using "1.IH"(1) [OF True refl t] .
      then show ?thesis using True t by (simp add: rej_block_take)
    next
      case f: False
      have "j \<le> snd (rej_block b (i + 3) r j)"
        using "1.IH"(2) [OF True refl f] .
      then show ?thesis using True f by (simp add: rej_block_skip)
    qed
  qed
qed

lemma rej_block_progress:
  "j < N \<Longrightarrow> i \<le> i0 \<Longrightarrow> i0 mod 3 = i mod 3 \<Longrightarrow> i0 + 3 \<le> length b \<Longrightarrow> triple_val b i0 < Q \<Longrightarrow>
    j < snd (rej_block b i r j)"
proof (induction b i r j rule: rej_block.induct)
  case (1 b i r j)
  have c: "j < N \<and> i + 3 \<le> length b" using "1.prems" by simp
  show ?case
  proof (cases "triple_val b i < Q")
    case t: True
    have "j + 1 \<le> snd (rej_block b (i + 3) (r[j := triple_val b i]) (j + 1))"
      by (rule rej_block_mono)
    then show ?thesis using c t by (simp add: rej_block_take)
  next
    case f: False
    then have "i \<noteq> i0" using "1.prems" by auto
    then have "i + 3 \<le> i0" using "1.prems"(2,3) by presburger
    moreover have "i0 mod 3 = (i + 3) mod 3" using "1.prems"(3) by presburger
    ultimately have "j < snd (rej_block b (i + 3) r j)"
      using "1.IH"(2) [OF c refl f] "1.prems" by simp
    then show ?thesis using c f by (simp add: rej_block_skip)
  qed
qed

lemma block_accepts_progress:
  assumes "block_accepts b" "j < N"
  shows "j < snd (rej_block b 0 r j)"
proof -
  from assms(1) obtain i0 where "3 dvd i0" "i0 + 3 \<le> length b" "triple_val b i0 < Q"
    by (auto simp: block_accepts_def list_ex_iff)
  then show ?thesis using rej_block_progress [of j 0 i0 b r] assms(2) by simp
qed

lemma RejNTTPoly_loop_done: "\<not> j < N \<Longrightarrow> RejNTTPoly_loop blocks n r j = Some (Inr r)"
  by (subst RejNTTPoly_loop.simps) simp

lemma RejNTTPoly_loop_step:
  "j < N \<Longrightarrow> length (blocks n) mod 3 = 0 \<Longrightarrow>
    RejNTTPoly_loop blocks n r j =
      RejNTTPoly_loop blocks (n + 1) (fst (rej_block (blocks n) 0 r j))
        (snd (rej_block (blocks n) 0 r j))"
  by (subst RejNTTPoly_loop.simps) simp

lemma RejNTTPoly_loop_returns:
  assumes al: "xof_aligned blocks" and ac: "xof_accepts blocks"
  shows "\<exists>r'. RejNTTPoly_loop blocks n r j = Some (Inr r')"
proof (induction "N - j" arbitrary: j n r rule: less_induct)
  case less
  show ?case
  proof (cases "j < N")
    case False
    then show ?thesis by (simp add: RejNTTPoly_loop_done)
  next
    case True
    have len: "length (blocks n') mod 3 = 0" for n'
      using al by (simp add: xof_aligned_def)
    have inner: "block_accepts (blocks (n + d)) \<Longrightarrow>
        \<exists>r'. RejNTTPoly_loop blocks n r j = Some (Inr r')" for d
    proof (induction d arbitrary: n r)
      case 0
      then have "j < snd (rej_block (blocks n) 0 r j)"
        using block_accepts_progress True by simp
      then have "N - snd (rej_block (blocks n) 0 r j) < N - j" using True by simp
      from less [OF this] show ?case
        by (simp add: RejNTTPoly_loop_step [OF True len])
    next
      case (Suc d)
      show ?case
      proof (cases "j < snd (rej_block (blocks n) 0 r j)")
        case True
        then have "N - snd (rej_block (blocks n) 0 r j) < N - j" using \<open>j < N\<close> by simp
        from less [OF this] show ?thesis
          by (simp add: RejNTTPoly_loop_step [OF \<open>j < N\<close> len])
      next
        case False
        then have eq: "snd (rej_block (blocks n) 0 r j) = j"
          using rej_block_mono [of j "blocks n" 0 r] by simp
        have "block_accepts (blocks (n + 1 + d))" using Suc.prems by simp
        from Suc.IH [OF this] show ?thesis
          by (simp add: RejNTTPoly_loop_step [OF \<open>j < N\<close> len] eq)
      qed
    qed
    from ac obtain m where "m \<ge> n" "block_accepts (blocks m)"
      unfolding xof_accepts_def by blast
    then have "block_accepts (blocks (n + (m - n)))" by simp
    then show ?thesis by (rule inner)
  qed
qed

lemma RejNTTPoly_returns:
  "xof_aligned blocks \<Longrightarrow> xof_accepts blocks \<Longrightarrow> \<exists>r. RejNTTPoly blocks = Some (Inr r)"
  unfolding RejNTTPoly_def by (rule RejNTTPoly_loop_returns)


lemma bind_r_Inr: "bind_r (Some (Inr x)) f = f x"
  by (simp add: bind_r_def)

lemma verify_Az_returns:
  assumes "\<And>i j. xof_aligned (c_XOF128 e rho j i) \<and> xof_accepts (c_XOF128 e rho j i)"
  shows "\<exists>Az'. verify_Az e rho zNtt L' i j Az = Some (Inr Az')"
proof (induction "L' - j" arbitrary: j Az)
  case 0
  then show ?case by (subst verify_Az.simps) simp
next
  case (Suc d)
  then have j: "j < L'" by simp
  from assms obtain aij where a: "RejNTTPoly (c_XOF128 e rho j i) = Some (Inr aij)"
    using RejNTTPoly_returns by blast
  have "d = L' - (j + 1)" using Suc.hyps(2) by simp
  from Suc.hyps(1) [OF this]
  obtain Az' where "verify_Az e rho zNtt L' i (j + 1) (polyAdd Az (MultiplyNTTs aij (zNtt ! j)))
      = Some (Inr Az')"
    by blast
  then show ?case using j a by (subst verify_Az.simps) (simp add: bind_r_Inr)
qed

lemma verify_rows_returns:
  assumes "\<And>i j. xof_aligned (c_XOF128 e rho j i) \<and> xof_accepts (c_XOF128 e rho j i)"
  shows "\<exists>w. verify_rows e p rho t1 c zNtt h i wTick1 = Some (Inr w)"
proof (induction "p_K p - i" arbitrary: i wTick1)
  case 0
  then show ?case by (subst verify_rows.simps) simp
next
  case (Suc d)
  then have i: "i < p_K p" by simp
  obtain Az where a: "verify_Az e rho zNtt (p_L p) i 0 (newPoly N) = Some (Inr Az)"
    using verify_Az_returns [OF assms] by blast
  have "d = p_K p - (i + 1)" using Suc.hyps(2) by simp
  from Suc.hyps(1) [OF this]
  show ?case using i a by (subst verify_rows.simps) (simp add: bind_r_Inr Let_def)
qed

lemma SampleInBall_returns:
  assumes "p_TAU p \<le> N" "xof_blocks xof" "xof_recurs xof (N - p_TAU p)"
  shows "\<exists>c. SampleInBall p xof = Some c"
proof -
  have "\<exists>c. SampleInBall_loop xof (take 8 (xof 0)) (N - p_TAU p) (newPoly N) (xof 0) 8 (0 + 1) 0 0
        = Some c \<and>
      length c = N \<and> (\<forall>x \<in> set c. x \<in> {- 1, 0, 1}) \<and>
      length (filter (\<lambda>x. x \<noteq> 0) c) = p_TAU p"
    using assms(1)
    by (intro SampleInBall_loop_ok [OF assms(3) assms(1)])
      (simp_all add: newPoly_def blockLen_def)
  then show ?thesis using assms(1) by (auto simp add: SampleInBall_def Let_def)
qed

lemma prims44_lens: "publicCoder_bytesLen prims44 = 1312" "sigCoder_bytesLen prims44 = 2420"
  by (simp_all add: publicCoder_bytesLen_def sigCoder_bytesLen_def T1_bytesLen_def Z_bytesLen_def
      hint_bytesLen_def prims44_def N_def)

lemma zero_block_accepts: "block_accepts (replicate 168 0)"
proof -
  have "triple_val (replicate 168 0) 0 < Q"
    by (simp add: triple_val_def js_and_def js_or_def js_shl_def int32_def Q_def)
  then show ?thesis
    unfolding block_accepts_def list_ex_iff by (intro bexI [of _ 0]) simp_all
qed

lemma zero_crystals_ok: "verify_xofs_ok zero_crystals p sig publicKey"
proof -
  have "xof_aligned (\<lambda>n. replicate 168 0)" by (simp add: xof_aligned_def)
  moreover have "xof_accepts (\<lambda>n. replicate 168 0)"
    unfolding xof_accepts_def using zero_block_accepts by blast
  ultimately show ?thesis
    using zero_xof_ok by (simp add: verify_xofs_ok_def zero_crystals_def)
qed

lemma hint_bad_rejected: "hintCoder_decode prims44 hint_bad = None"
  by code_simp

section \<open>Signing: the rejection loop\<close>

lemma sign_loop_first_accept:
  "(\<And>m. m < n \<Longrightarrow> body (kappa + m * L') = Some Rejected) \<Longrightarrow>
    body (kappa + n * L') = Some (Accepted res) \<Longrightarrow> sign_loop body L' kappa = Some res"
proof (induction n arbitrary: kappa)
  case 0
  then show ?case by (subst sign_loop.simps) simp
next
  case (Suc n)
  have r: "body kappa = Some Rejected" using Suc.prems(1) [of 0] by simp
  have "sign_loop body L' (kappa + L') = Some res"
  proof (rule Suc.IH)
    fix m assume "m < n"
    then show "body (kappa + L' + m * L') = Some Rejected"
      using Suc.prems(1) [of "Suc m"] by (simp add: add.assoc)
  next
    show "body (kappa + L' + n * L') = Some (Accepted res)"
      using Suc.prems(2) by (simp add: add.assoc)
  qed
  then show ?case using r by (subst sign_loop.simps) simp
qed

lemma sign_loop_returned:
  assumes "sign_loop body L' kappa = Some res"
  shows "\<exists>n. (\<forall>m<n. body (kappa + m * L') = Some Rejected) \<and>
        body (kappa + n * L') = Some (Accepted res)"
proof (rule sign_loop.raw_induct [where P = "\<lambda>body L' kappa res.
    \<exists>n. (\<forall>m<n. body (kappa + m * L') = Some Rejected) \<and>
        body (kappa + n * L') = Some (Accepted res)", OF _ assms], goal_cases)
  case (1 sign_loop' body L' kappa res)
  show ?case
  proof (cases "body kappa")
    case None
    then show ?thesis using 1(2) by simp
  next
    case (Some a)
    show ?thesis
    proof (cases a)
      case Rejected
      then have "sign_loop' body L' (kappa + L') = Some res" using 1(2) Some by simp
      from 1(1) [OF this] obtain n where
        n: "\<forall>m<n. body (kappa + L' + m * L') = Some Rejected"
           "body (kappa + L' + n * L') = Some (Accepted res)"
        by blast
      have "\<forall>m<Suc n. body (kappa + m * L') = Some Rejected"
      proof (intro allI impI)
        fix m assume "m < Suc n"
        show "body (kappa + m * L') = Some Rejected"
        proof (cases m)
          case 0
          then show ?thesis using Some Rejected by simp
        next
          case (Suc m')
          then have "m' < n" using \<open>m < Suc n\<close> by simp
          then show ?thesis using n(1) Suc by (simp add: add.assoc)
        qed
      qed
      moreover have "body (kappa + Suc n * L') = Some (Accepted res)"
        using n(2) by (simp add: add.assoc)
      ultimately show ?thesis by blast
    next
      case (Accepted x)
      then have "x = res" using 1(2) Some by simp
      then have "(\<forall>m<0. body (kappa + m * L') = Some Rejected) \<and>
          body (kappa + 0 * L') = Some (Accepted res)"
        using Some Accepted by simp
      then show ?thesis by blast
    qed
  qed
qed

lemma internal_sign_returns_iff:
  "internal_sign e p msg secretKey signOpts = Some (Inr res) \<longleftrightarrow>
    (\<exists>n. (\<forall>m<n. sign_pass e p msg secretKey signOpts (m * p_L p) = Some Rejected) \<and>
         sign_pass e p msg secretKey signOpts (n * p_L p) = Some (Accepted res))"
proof (cases "sign_setup e p msg secretKey signOpts")
  case None
  then show ?thesis by (simp add: internal_sign_def sign_pass_def bind_r_def)
next
  case (Some a)
  show ?thesis
  proof (cases a)
    case (Inl err)
    then show ?thesis using Some by (simp add: internal_sign_def sign_pass_def bind_r_def)
  next
    case (Inr sc)
    have pass: "sign_pass e p msg secretKey signOpts k = sign_attempt e p sc k" for k
      using Some Inr by (simp add: sign_pass_def)
    have "internal_sign e p msg secretKey signOpts = Some (Inr res) \<longleftrightarrow>
        sign_loop (sign_attempt e p sc) (p_L p) 0 = Some res"
      using Some Inr by (auto simp add: internal_sign_def bind_r_def)
    also have "\<dots> \<longleftrightarrow> (\<exists>n. (\<forall>m<n. sign_attempt e p sc (m * p_L p) = Some Rejected) \<and>
         sign_attempt e p sc (n * p_L p) = Some (Accepted res))"
      using sign_loop_returned [of "sign_attempt e p sc" "p_L p" 0 res]
        sign_loop_first_accept [of _ "sign_attempt e p sc" 0 "p_L p" res]
      by auto
    finally show ?thesis by (simp add: pass)
  qed
qed

lemma internal_sign_throws_iff:
  "internal_sign e p msg secretKey signOpts = Some (Inl err) \<longleftrightarrow>
    sign_setup e p msg secretKey signOpts = Some (Inl err)"
  by (auto simp add: internal_sign_def bind_r_def split: option.splits sum.splits)


declare expandA_row.simps [simp del] expandA.simps [simp del] sign_hints.simps [simp del]
  hint_enc_row.simps [simp del] hint_enc_rows.simps [simp del]

lemma expandA_row_returns:
  assumes "\<And>i j. xof_aligned (c_XOF128 e rho j i) \<and> xof_accepts (c_XOF128 e rho j i)"
  shows "\<exists>pv'. expandA_row e rho L' i j pv = Some (Inr pv')"
proof (induction "L' - j" arbitrary: j pv)
  case 0
  then show ?case by (subst expandA_row.simps) simp
next
  case (Suc d)
  then have j: "j < L'" by simp
  from assms obtain aij where a: "RejNTTPoly (c_XOF128 e rho j i) = Some (Inr aij)"
    using RejNTTPoly_returns by blast
  have "d = L' - (j + 1)" using Suc.hyps(2) by simp
  from Suc.hyps(1) [OF this]
  show ?case using j a by (subst expandA_row.simps) (simp add: bind_r_Inr)
qed

lemma expandA_returns:
  assumes "\<And>i j. xof_aligned (c_XOF128 e rho j i) \<and> xof_accepts (c_XOF128 e rho j i)"
  shows "\<exists>A'. expandA e p rho i A = Some (Inr A')"
proof (induction "p_K p - i" arbitrary: i A)
  case 0
  then show ?case by (subst expandA.simps) simp
next
  case (Suc d)
  then have i: "i < p_K p" by simp
  obtain pv where a: "expandA_row e rho (p_L p) i 0 [] = Some (Inr pv)"
    using expandA_row_returns [OF assms] by blast
  have "d = p_K p - (i + 1)" using Suc.hyps(2) by simp
  from Suc.hyps(1) [OF this]
  show ?case using i a by (subst expandA.simps) (simp add: bind_r_Inr)
qed

lemma sequence_r_replicate: "sequence_r (replicate n (Inr z)) = Inr (replicate n z)"
  by (induction n) simp_all

lemma delay_simps:
  "c_shake256 (delay_crystals d) n b = replicate n 0"
  "c_shake256_xof (delay_crystals d) seed = zero_xof"
  "c_XOF128 (delay_crystals d) seed x y = (\<lambda>n. replicate 168 0)"
  "c_XOF256 (delay_crystals d) seed x' y' = (if y' < d then [1] else [])"
  "c_NTT_encode (delay_crystals d) r = r"
  "c_NTT_decode (delay_crystals d) r = r"
  "c_T0_decode (delay_crystals d) b = newPoly N"
  "c_ETA_decode (delay_crystals d) b = Inr (newPoly N)"
  "c_Z_decode (delay_crystals d) b = (if b = [1] then replicate N (2 ^ 17) else newPoly N)"
  "c_Z_encode (delay_crystals d) r = []"
  "c_W1_encode (delay_crystals d) r = []"
  "c_randomBytes (delay_crystals d) n = replicate n 0"
  by (simp_all add: delay_crystals_def zero_crystals_def)

lemma prims44_fields:
  "p_K prims44 = 4" "p_L prims44 = 4" "p_GAMMA1 prims44 = 131072" "p_GAMMA2 prims44 = 95232"
  "p_TAU prims44 = 39" "p_ETA prims44 = 2" "p_OMEGA prims44 = 80" "p_C_TILDE_BYTES prims44 = 32"
  "p_CRH_BYTES prims44 = 64" "p_TR_BYTES prims44 = 64" "p_BETA prims44 = 78"
  by (simp_all add: prims44_def GAMMA2_1_def Q_def)

lemma secretCoder_bytesLen44: "secretCoder_bytesLen prims44 = 2560"
  by (simp add: secretCoder_bytesLen_def ETA_bytesLen_def T0_bytesLen_def prims44_fields N_def)

lemma delay_setup:
  assumes "length secretKey = 2560" "o_extraEntropy signOpts = EntropyFalse"
  shows "\<exists>A. sign_setup (delay_crystals d) prims44 msg secretKey signOpts =
    Some (Inr (zero_ctx A (if o_externalMu signOpts then msg else replicate 64 0)))"
proof -
  have dec: "secretCoder_decode (delay_crystals d) prims44 secretKey =
      Inr (take 32 secretKey, take 32 (drop 32 secretKey), take 64 (drop 64 secretKey),
        replicate 4 (newPoly N), replicate 4 (newPoly N), replicate 4 (newPoly N))"
    using assms(1)
    by (simp add: secretCoder_decode_def secretCoder_bytesLen44 vec_decode_def delay_simps
        sequence_r_replicate prims44_fields Let_def map_replicate_const
        del: upt_Suc replicate_Suc)
  have "xof_aligned (\<lambda>n. replicate 168 0)" by (simp add: xof_aligned_def)
  moreover have "xof_accepts (\<lambda>n. replicate 168 0)"
    unfolding xof_accepts_def using zero_block_accepts by blast
  ultimately obtain A where A: "expandA (delay_crystals d) prims44 (take 32 secretKey) 0 []
      = Some (Inr A)"
    using expandA_returns [of "delay_crystals d" "take 32 secretKey" prims44 0 "[]"]
    by (auto simp add: delay_simps)
  have "sign_setup (delay_crystals d) prims44 msg secretKey signOpts =
    Some (Inr (zero_ctx A (if o_externalMu signOpts then msg else replicate 64 0)))"
    using assms(2)
    by (simp add: sign_setup_def dec A bind_r_Inr delay_simps prims44_fields zero_ctx_def
        del: replicate_Suc)
  then show ?thesis by blast
qed


lemma mod_pos_zero: "mod_pos 0 Q = 0"
  by (simp add: mod_pos_def)

lemma map_const_upt: "(\<And>i. i < n \<Longrightarrow> f i = c) \<Longrightarrow> map f [0 ..< n] = replicate n c"
  by (intro nth_equalityI) simp_all

lemma js_double_zero: "js_double 0 = 0"
  by (simp add: js_double_def)

lemma MultiplyNTTs_zero_r: "MultiplyNTTs a (newPoly N) = newPoly N"
  unfolding MultiplyNTTs_def newPoly_def
  by (rule map_const_upt) (simp add: mod_pos_zero js_double_zero)

lemma MultiplyNTTs_zero_l: "MultiplyNTTs (newPoly N) b = newPoly N"
  unfolding MultiplyNTTs_def newPoly_def
  by (rule map_const_upt) (simp add: mod_pos_zero js_double_zero)

lemma polyAdd_zero: "polyAdd (newPoly N) (newPoly N) = newPoly N"
proof -
  have "map (\<lambda>i. if i < length (replicate N (0::int))
      then mod_pos (replicate N 0 ! i + replicate N 0 ! i) Q else 0) [0 ..< N] = replicate N 0"
    by (rule map_const_upt) (simp add: mod_pos_zero)
  then show ?thesis by (simp add: polyAdd_def newPoly_def)
qed

lemma polySub_zero: "polySub (newPoly N) (newPoly N) = newPoly N"
proof -
  have "map (\<lambda>i. if i < length (replicate N (0::int))
      then mod_pos (replicate N 0 ! i - replicate N 0 ! i) Q else 0) [0 ..< N] = replicate N 0"
    by (rule map_const_upt) (simp add: mod_pos_zero)
  then show ?thesis by (simp add: polySub_def newPoly_def)
qed

lemma polyAdd_big: "polyAdd (newPoly N) (replicate N 131072) = replicate N 131072"
  unfolding polyAdd_def newPoly_def
  by (simp, intro map_const_upt, simp add: mod_pos_def Q_def)

lemma smod_zero: "smod 0 Q = 0"
  by (simp add: smod_def mod_pos_def Q_def)

lemma polyChknorm_zero: "0 < B \<Longrightarrow> \<not> polyChknorm (newPoly N) B"
  by (auto simp add: polyChknorm_def newPoly_def list_ex_iff smod_zero coef_def)

lemma polyChknorm_big: "polyChknorm (replicate N 131072) (p_GAMMA1 prims44 - p_BETA prims44)"
proof -
  have "smod 131072 Q = 131072" by (simp add: smod_def mod_pos_def Q_def Let_def)
  then have "\<bar>smod (coef (replicate N 131072) 0) Q\<bar> \<ge> p_GAMMA1 prims44 - p_BETA prims44"
    by (simp add: N_def prims44_fields coef_def)
  moreover have "(0::nat) \<in> set [0 ..< N]" by (simp add: N_def)
  ultimately show ?thesis unfolding polyChknorm_def list_ex_iff by blast
qed

lemma decompose44_zero: "decompose prims44 0 = (0, 0)"
  by (simp add: decompose_def prims44_fields mod_pos_def smod_def int32_def Q_def Let_def)

lemma HighBits_zero: "map (HighBits prims44) (newPoly N) = newPoly N"
  by (simp add: newPoly_def HighBits_def decompose44_zero)

lemma LowBits_zero: "map (LowBits prims44) (newPoly N) = newPoly N"
  by (simp add: newPoly_def LowBits_def decompose44_zero)

lemma polyMakeHint_zero: "polyMakeHint prims44 (newPoly N) (newPoly N) = (newPoly N, 0)"
proof -
  have "map (\<lambda>i. if i < length (replicate N (0::int))
        then MakeHint prims44 (replicate N 0 ! i)
               (if i < length (replicate N (0::int)) then replicate N 0 ! i else 1)
        else 1) [0 ..< N] = replicate N 0"
    by (rule map_const_upt) (simp add: MakeHint_def prims44_fields)
  then show ?thesis by (simp add: polyMakeHint_def newPoly_def Let_def sum_list_replicate)
qed


lemma sign_w_zero:
  assumes "\<And>j. j < p_L p \<Longrightarrow> z ! j = newPoly N"
  shows "sign_w (delay_crystals d) p A z i = newPoly N"
proof -
  have "\<forall>j \<in> set js. z ! j = newPoly N \<Longrightarrow>
      foldl (\<lambda>wi j. polyAdd wi (MultiplyNTTs (A ! i ! j) (z ! j))) (newPoly N) js = newPoly N"
    for js
    by (induction js) (simp_all add: MultiplyNTTs_zero_r polyAdd_zero)
  then show ?thesis using assms by (simp add: sign_w_def delay_simps)
qed

lemma sign_hints_zero:
  assumes w: "\<And>i. i < 4 \<Longrightarrow> w ! i = newPoly N" and w1: "\<And>i. i < 4 \<Longrightarrow> w1 ! i = newPoly N"
  shows "i \<le> 4 \<Longrightarrow>
    sign_hints (delay_crystals d) prims44 (zero_ctx A mu) cHat w w1 i h 0 =
      Some (h @ replicate (4 - i) (newPoly N), 0)"
proof (induction "4 - i" arbitrary: i h)
  case 0
  then show ?case by (subst sign_hints.simps) (simp add: prims44_fields)
next
  case (Suc n)
  then have i: "i < 4" by simp
  have n: "n = 4 - (i + 1)" "i + 1 \<le> 4" using Suc.hyps(2) by simp_all
  have rep: "replicate (4 - i) (newPoly N) = newPoly N # replicate (4 - (i + 1)) (newPoly N)"
    using i by (simp add: Suc_diff_Suc flip: replicate_Suc)
  have s: "sc_s2 (zero_ctx A mu) ! i = newPoly N" "sc_t0 (zero_ctx A mu) ! i = newPoly N"
    using i by (simp_all add: zero_ctx_def)
  show ?case
    using i Suc.hyps(1) [OF n, of "h @ [newPoly N]"]
    by (subst sign_hints.simps)
      (simp add: prims44_fields delay_simps s w w1 MultiplyNTTs_zero_l polySub_zero LowBits_zero
        polyChknorm_zero polyAdd_zero polyMakeHint_zero rep Let_def)
qed

lemma hint_enc_row_zero: "hint_enc_row (newPoly N) j k res = (res, k)"
proof (induction "N - j" arbitrary: j)
  case 0
  then show ?case by (subst hint_enc_row.simps) simp
next
  case (Suc n)
  then have j: "j < N" by simp
  have "n = N - (j + 1)" using Suc.hyps(2) by simp
  from Suc.hyps(1) [OF this] show ?case
    using j by (subst hint_enc_row.simps) (simp add: coef_def newPoly_def)
qed

lemma replicate_update_same: "(replicate n x)[i := x] = replicate n x"
  by (cases "i < n") (simp_all add: list_eq_iff_nth_eq nth_list_update)

lemma hint_enc_rows_zero:
  assumes "\<And>i. i < 4 \<Longrightarrow> h ! i = newPoly N"
  shows "hint_enc_rows prims44 h i 0 (replicate 84 0) = replicate 84 0"
proof (induction "4 - i" arbitrary: i)
  case 0
  then show ?case by (subst hint_enc_rows.simps) (simp add: prims44_fields)
next
  case (Suc n)
  then have i: "i < 4" by simp
  have "n = 4 - (i + 1)" using Suc.hyps(2) by simp
  from Suc.hyps(1) [OF this] show ?case
    using i
    by (subst hint_enc_rows.simps)
      (simp add: prims44_fields assms hint_enc_row_zero replicate_update_same)
qed

lemma js_sar_small: "k < 2 ^ 31 \<Longrightarrow> js_sar (int k) 8 = int (k div 256)"
proof -
  assume "k < 2 ^ 31"
  then have "int k < 2 ^ 31" by (metis of_nat_less_iff of_nat_numeral of_nat_power)
  then have "int32 (int k) = int k" by (intro int32_nonneg) simp_all
  then show ?thesis by (simp add: js_sar_def drop_bit_eq_div zdiv_int)
qed


lemma zero_xof_sample: "\<exists>c0. SampleInBall prims44 zero_xof = Some c0"
  by (rule SampleInBall_returns) (simp_all add: prims44_fields N_def zero_xof_ok)

lemma sign_attempt_accepted:
  assumes far: "\<And>i. i < 4 \<Longrightarrow> \<not> js_sar (int (kappa + i)) 8 < d"
  shows "sign_attempt (delay_crystals d) prims44 (zero_ctx A mu) kappa =
    Some (Accepted (replicate 116 0))"
proof -
  define e where "e = delay_crystals d"
  define sc where "sc = zero_ctx A mu"
  define y where "y = map (\<lambda>i. c_Z_decode e
      (c_XOF256 e (sc_rhoprime sc) (js_and (int (kappa + i)) 0xff)
         (js_sar (int (kappa + i)) 8))) [0 ..< p_L prims44]"
  have far': "\<not> js_sar (int kappa + int i) 8 < d" if "i < 4" for i
    using far [OF that] by simp
  have y: "y = replicate 4 (newPoly N)"
    unfolding y_def prims44_fields
    by (rule map_const_upt) (simp add: e_def delay_simps far')
  define w where "w = map (sign_w e prims44 (sc_A sc) (map (c_NTT_encode e) y))
      [0 ..< p_K prims44]"
  have w: "w = replicate 4 (newPoly N)"
    unfolding w_def prims44_fields e_def
    by (rule map_const_upt) (rule sign_w_zero, simp add: y delay_simps prims44_fields)
  define w1 where "w1 = map (map (HighBits prims44)) w"
  have w1: "w1 = replicate 4 (newPoly N)"
    by (simp add: w1_def w HighBits_zero)
  obtain c0 where c0: "SampleInBall prims44 zero_xof = Some c0"
    using zero_xof_sample by blast
  define cs1 where "cs1 = (\<lambda>c. map (\<lambda>i. polyAdd (c_NTT_decode e
      (MultiplyNTTs (sc_s1 sc ! i) (c_NTT_encode e c))) (y ! i)) [0 ..< p_L prims44])"
  have cs1: "cs1 c = replicate 4 (newPoly N)" for c
    unfolding cs1_def prims44_fields
    by (rule map_const_upt)
      (simp add: e_def sc_def delay_simps zero_ctx_def y MultiplyNTTs_zero_l polyAdd_zero)
  have norm: "\<not> list_ex (\<lambda>t. polyChknorm t (p_GAMMA1 prims44 - p_BETA prims44)) (cs1 c0)"
    by (simp add: cs1 list_ex_iff polyChknorm_zero prims44_fields)
  have hints: "sign_hints e prims44 sc (c_NTT_encode e c0) w w1 0 [] 0 =
      Some (replicate 4 (newPoly N), 0)"
    using sign_hints_zero [of w w1 0 d A mu "c_NTT_encode e c0" "[]"]
    by (simp add: w w1 e_def sc_def)
  have enc: "sigCoder_encode e prims44 (replicate 32 0) (cs1 c0) (replicate 4 (newPoly N)) =
      replicate 116 0"
  proof -
    have "hintCoder_encode prims44 (replicate 4 (newPoly N)) = replicate 84 0"
      using hint_enc_rows_zero [of "replicate 4 (newPoly N)" 0]
      by (simp add: hintCoder_encode_def prims44_fields)
    then have "sigCoder_encode e prims44 (replicate 32 0) (cs1 c0) (replicate 4 (newPoly N)) =
        replicate 32 0 @ replicate 84 0"
      by (simp add: sigCoder_encode_def vec_encode_def e_def delay_simps)
    also have "\<dots> = replicate (32 + 84) 0" by (rule replicate_add [symmetric])
    finally show ?thesis by simp
  qed
  have ct: "c_shake256 e (p_C_TILDE_BYTES prims44) x = replicate 32 0" for x
    by (simp add: e_def delay_simps prims44_fields)
  have xof: "c_shake256_xof e x = zero_xof" for x
    by (simp add: e_def delay_simps)
  have "sign_attempt e prims44 sc kappa =
    (case SampleInBall prims44 zero_xof of
       None \<Rightarrow> None
     | Some c \<Rightarrow>
         if list_ex (\<lambda>t. polyChknorm t (p_GAMMA1 prims44 - p_BETA prims44)) (cs1 c)
         then Some Rejected
         else (case sign_hints e prims44 sc (c_NTT_encode e c) w w1 0 [] 0 of
                 None \<Rightarrow> Some Rejected
               | Some (h, cnt) \<Rightarrow>
                   if cnt > int (p_OMEGA prims44) then Some Rejected
                   else Some (Accepted (sigCoder_encode e prims44 (replicate 32 0) (cs1 c) h))))"
    unfolding sign_attempt_def Let_def cs1_def w1_def w_def y_def ct xof by (rule refl)
  then show ?thesis
    using c0 norm hints enc by (simp add: e_def sc_def)
qed

lemma sign_attempt_rejected:
  assumes near: "js_sar (int kappa) 8 < d"
  shows "sign_attempt (delay_crystals d) prims44 (zero_ctx A mu) kappa = Some Rejected"
proof -
  define e where "e = delay_crystals d"
  define sc where "sc = zero_ctx A mu"
  define y where "y = map (\<lambda>i. c_Z_decode e
      (c_XOF256 e (sc_rhoprime sc) (js_and (int (kappa + i)) 0xff)
         (js_sar (int (kappa + i)) 8))) [0 ..< p_L prims44]"
  have y0: "y ! 0 = replicate N 131072"
    unfolding y_def prims44_fields using near by (simp add: e_def delay_simps)
  define w where "w = map (sign_w e prims44 (sc_A sc) (map (c_NTT_encode e) y))
      [0 ..< p_K prims44]"
  define w1 where "w1 = map (map (HighBits prims44)) w"
  obtain c0 where c0: "SampleInBall prims44 zero_xof = Some c0"
    using zero_xof_sample by blast
  define cs1 where "cs1 = (\<lambda>c. map (\<lambda>i. polyAdd (c_NTT_decode e
      (MultiplyNTTs (sc_s1 sc ! i) (c_NTT_encode e c))) (y ! i)) [0 ..< p_L prims44])"
  have "cs1 c0 ! 0 = replicate N 131072"
    unfolding cs1_def prims44_fields
    by (simp add: e_def sc_def delay_simps zero_ctx_def y0 MultiplyNTTs_zero_l polyAdd_big)
  moreover have "0 < length (cs1 c0)" by (simp add: cs1_def prims44_fields)
  ultimately have "replicate N 131072 \<in> set (cs1 c0)" by (metis nth_mem)
  then have norm: "list_ex (\<lambda>t. polyChknorm t (p_GAMMA1 prims44 - p_BETA prims44)) (cs1 c0)"
    unfolding list_ex_iff using polyChknorm_big by blast
  have ct: "c_shake256 e (p_C_TILDE_BYTES prims44) x = replicate 32 0" for x
    by (simp add: e_def delay_simps prims44_fields)
  have xof: "c_shake256_xof e x = zero_xof" for x
    by (simp add: e_def delay_simps)
  have "sign_attempt e prims44 sc kappa =
    (case SampleInBall prims44 zero_xof of
       None \<Rightarrow> None
     | Some c \<Rightarrow>
         if list_ex (\<lambda>t. polyChknorm t (p_GAMMA1 prims44 - p_BETA prims44)) (cs1 c)
         then Some Rejected
         else (case sign_hints e prims44 sc (c_NTT_encode e c) w w1 0 [] 0 of
                 None \<Rightarrow> Some Rejected
               | Some (h, cnt) \<Rightarrow>
                   if cnt > int (p_OMEGA prims44) then Some Rejected
                   else Some (Accepted (sigCoder_encode e prims44 (replicate 32 0) (cs1 c) h))))"
    unfolding sign_attempt_def Let_def cs1_def w1_def w_def y_def ct xof by (rule refl)
  then show ?thesis
    using c0 norm by (simp add: e_def sc_def)
qed


lemma delay_pass_rejected:
  assumes "length secretKey = 2560" "o_extraEntropy signOpts = EntropyFalse"
    "kappa < 2 ^ 31" "int (kappa div 256) < d"
  shows "sign_pass (delay_crystals d) prims44 msg secretKey signOpts kappa = Some Rejected"
proof -
  from delay_setup [OF assms(1,2)] obtain A where
    "sign_setup (delay_crystals d) prims44 msg secretKey signOpts =
      Some (Inr (zero_ctx A (if o_externalMu signOpts then msg else replicate 64 0)))"
    by blast
  moreover have "js_sar (int kappa) 8 < d" using assms(3,4) by (simp add: js_sar_small)
  ultimately show ?thesis by (simp add: sign_pass_def sign_attempt_rejected)
qed

lemma delay_pass_accepted:
  assumes "length secretKey = 2560" "o_extraEntropy signOpts = EntropyFalse"
    "kappa + 4 < 2 ^ 31" "d \<le> int (kappa div 256)"
  shows "sign_pass (delay_crystals d) prims44 msg secretKey signOpts kappa =
    Some (Accepted (replicate 116 0))"
proof -
  from delay_setup [OF assms(1,2)] obtain A where
    "sign_setup (delay_crystals d) prims44 msg secretKey signOpts =
      Some (Inr (zero_ctx A (if o_externalMu signOpts then msg else replicate 64 0)))"
    by blast
  moreover have "\<not> js_sar (int (kappa + i)) 8 < d" if "i < 4" for i
  proof -
    have "kappa + i < 2 ^ 31" using assms(3) that by simp
    then have "js_sar (int (kappa + i)) 8 = int ((kappa + i) div 256)" by (rule js_sar_small)
    moreover have "kappa div 256 \<le> (kappa + i) div 256" by (rule div_le_mono) simp
    then have "int (kappa div 256) \<le> int ((kappa + i) div 256)" by linarith
    ultimately show ?thesis using assms(4) by linarith
  qed
  ultimately show ?thesis by (simp add: sign_pass_def sign_attempt_accepted)
qed

lemma delay8_passes:
  assumes "length secretKey = 2560" "o_extraEntropy signOpts = EntropyFalse"
  shows "m < 512 \<Longrightarrow>
      sign_pass (delay_crystals 8) prims44 msg secretKey signOpts (m * 4) = Some Rejected"
    and "sign_pass (delay_crystals 8) prims44 msg secretKey signOpts (512 * 4) =
      Some (Accepted (replicate 116 0))"
proof -
  show "sign_pass (delay_crystals 8) prims44 msg secretKey signOpts (m * 4) = Some Rejected"
    if "m < 512"
  proof (rule delay_pass_rejected [OF assms])
    show "m * 4 < 2 ^ 31" using that by simp
    have "m * 4 div 256 < 8" using that by simp
    then show "int (m * 4 div 256) < 8" by linarith
  qed
  show "sign_pass (delay_crystals 8) prims44 msg secretKey signOpts (512 * 4) =
      Some (Accepted (replicate 116 0))"
    by (rule delay_pass_accepted [OF assms]) simp_all
qed

lemma delay0_sign:
  assumes "length secretKey = 2560" "o_extraEntropy signOpts = EntropyFalse"
  shows "internal_sign (delay_crystals 0) prims44 msg secretKey signOpts =
    Some (Inr (replicate 116 0))"
proof -
  have "sign_pass (delay_crystals 0) prims44 msg secretKey signOpts 0 =
      Some (Accepted (replicate 116 0))"
    by (rule delay_pass_accepted [OF assms]) simp_all
  then have "(\<forall>m<0. sign_pass (delay_crystals 0) prims44 msg secretKey signOpts
        (m * p_L prims44) = Some Rejected) \<and>
      sign_pass (delay_crystals 0) prims44 msg secretKey signOpts (0 * p_L prims44) =
        Some (Accepted (replicate 116 0))"
    by simp
  then show ?thesis unfolding internal_sign_returns_iff by blast
qed

text \<open>C2, as the code has it: the rejection loop of the baseline \<^verbatim>\<open>sign\<close> has no bound on
  its passes. The call returns a signature exactly when some pass, the \<open>n\<close>-th for any \<open>n\<close>, is
  the first one accepted, and that pass's signature is what it returns; the only errors it
  raises are those of the steps before the loop (key decoding, the matrix, the entropy's
  length). No failure is raised for passes used up.\<close>

theorem internal_sign_unbounded:
  "(internal_sign e p msg secretKey signOpts = Some (Inr res) \<longleftrightarrow>
      (\<exists>n. (\<forall>m<n. sign_pass e p msg secretKey signOpts (m * p_L p) = Some Rejected) \<and>
           sign_pass e p msg secretKey signOpts (n * p_L p) = Some (Accepted res))) \<and>
   (internal_sign e p msg secretKey signOpts = Some (Inl err) \<longleftrightarrow>
      sign_setup e p msg secretKey signOpts = Some (Inl err))"
  using internal_sign_returns_iff [of e p msg secretKey signOpts res]
    internal_sign_throws_iff [of e p msg secretKey signOpts err]
  by (rule conjI)

theorem internal_sign_unbounded_witness:
  "list_all (\<lambda>m. sign_pass (delay_crystals 8) prims44 [] example_key plain_opts
       (m * p_L prims44) = Some Rejected) [0 ..< 512] \<and>
   sign_pass (delay_crystals 8) prims44 [] example_key plain_opts (512 * p_L prims44) =
     Some (Accepted (replicate 116 0)) \<and>
   internal_sign (delay_crystals 8) prims44 [] example_key plain_opts =
     Some (Inr (replicate 116 0))"
proof -
  have k: "length example_key = 2560" "o_extraEntropy plain_opts = EntropyFalse"
    by (simp_all add: example_key_def plain_opts_def)
  have r: "\<forall>m<512. sign_pass (delay_crystals 8) prims44 [] example_key plain_opts
      (m * p_L prims44) = Some Rejected"
    using delay8_passes(1) [OF k] by (simp add: prims44_fields)
  have a: "sign_pass (delay_crystals 8) prims44 [] example_key plain_opts (512 * p_L prims44) =
      Some (Accepted (replicate 116 0))"
    using delay8_passes(2) [OF k] by (simp add: prims44_fields)
  from r a have "\<exists>n. (\<forall>m<n. sign_pass (delay_crystals 8) prims44 [] example_key plain_opts
        (m * p_L prims44) = Some Rejected) \<and>
      sign_pass (delay_crystals 8) prims44 [] example_key plain_opts (n * p_L prims44) =
        Some (Accepted (replicate 116 0))"
    by blast
  then have "internal_sign (delay_crystals 8) prims44 [] example_key plain_opts =
      Some (Inr (replicate 116 0))"
    using internal_sign_unbounded [of "delay_crystals 8" prims44 "[]" example_key plain_opts
        "replicate 116 0"]
    by blast
  moreover have "list_all (\<lambda>m. sign_pass (delay_crystals 8) prims44 [] example_key plain_opts
       (m * p_L prims44) = Some Rejected) [0 ..< 512]"
    unfolding list_all_iff using r by simp
  ultimately show ?thesis using a by blast
qed

text \<open>Five hundred passes rejected: the call goes on, and returns the signature of a later
  pass.\<close>

theorem internal_sign_past_500:
  "list_all (\<lambda>m. sign_pass (delay_crystals 8) prims44 [] example_key plain_opts (m * 4)
       = Some Rejected) [0 ..< 500] \<and>
   internal_sign (delay_crystals 8) prims44 [] example_key plain_opts =
     Some (Inr (replicate 116 0))"
proof -
  have k: "length example_key = 2560" "o_extraEntropy plain_opts = EntropyFalse"
    by (simp_all add: example_key_def plain_opts_def)
  have r: "\<forall>m<512. sign_pass (delay_crystals 8) prims44 [] example_key plain_opts
      (m * p_L prims44) = Some Rejected"
    using delay8_passes(1) [OF k] by (simp add: prims44_fields)
  have a: "sign_pass (delay_crystals 8) prims44 [] example_key plain_opts (512 * p_L prims44) =
      Some (Accepted (replicate 116 0))"
    using delay8_passes(2) [OF k] by (simp add: prims44_fields)
  from r a have "internal_sign (delay_crystals 8) prims44 [] example_key plain_opts =
      Some (Inr (replicate 116 0))"
    unfolding internal_sign_returns_iff by blast
  moreover have "list_all (\<lambda>m. sign_pass (delay_crystals 8) prims44 [] example_key plain_opts
       (m * 4) = Some Rejected) [0 ..< 500]"
    unfolding list_all_iff using delay8_passes(1) [OF k] by simp
  ultimately show ?thesis by blast
qed

section \<open>Verification: what it returns and what it throws\<close>

lemma RejNTTPoly_loop_error:
  assumes "RejNTTPoly_loop blocks n r j = Some (Inl err)"
  shows "err = UnalignedBlock \<and> \<not> xof_aligned blocks"
proof -
  have "\<forall>err. res = Inl err \<longrightarrow> err = UnalignedBlock \<and> \<not> xof_aligned blocks"
    if "RejNTTPoly_loop blocks n r j = Some res" for res
  proof (rule RejNTTPoly_loop.raw_induct [where P = "\<lambda>blocks n r j res.
      \<forall>err. res = Inl err \<longrightarrow> err = UnalignedBlock \<and> \<not> xof_aligned blocks", OF _ that],
      goal_cases)
    case (1 loop' blocks n r j res)
    show ?case
    proof (cases "j < N")
      case False
      then show ?thesis using 1(2) by auto
    next
      case True
      show ?thesis
      proof (cases "length (blocks n) mod 3 \<noteq> 0")
        case bad: True
        then have "\<not> xof_aligned blocks" unfolding xof_aligned_def by (intro notI) (drule spec [of _ n], simp)
        then show ?thesis using 1(2) True bad by auto
      next
        case False
        then have "loop' blocks (n + 1) (fst (rej_block (blocks n) 0 r j))
            (snd (rej_block (blocks n) 0 r j)) = Some res"
          using 1(2) True by simp
        from 1(1) [OF this] show ?thesis .
      qed
    qed
  qed
  from this [OF assms] show ?thesis by blast
qed

lemma RejNTTPoly_error:
  "RejNTTPoly blocks = Some (Inl err) \<Longrightarrow> err = UnalignedBlock \<and> \<not> xof_aligned blocks"
  unfolding RejNTTPoly_def by (rule RejNTTPoly_loop_error)

lemma bind_r_Inl: "bind_r m f = Some (Inl err) \<Longrightarrow>
    m = Some (Inl err) \<or> (\<exists>x. m = Some (Inr x) \<and> f x = Some (Inl err))"
  by (auto simp add: bind_r_def split: option.splits sum.splits)

lemma verify_Az_error:
  "verify_Az e rho zNtt L' i j Az = Some (Inl err) \<Longrightarrow>
    err = UnalignedBlock \<and> (\<exists>i j. \<not> xof_aligned (c_XOF128 e rho j i))"
proof (induction "L' - j" arbitrary: j Az)
  case 0
  then show ?case by (subst (asm) verify_Az.simps) simp
next
  case (Suc d)
  then have j: "j < L'" by simp
  have d: "d = L' - (j + 1)" using Suc.hyps(2) by simp
  from Suc.prems have "bind_r (RejNTTPoly (c_XOF128 e rho j i))
      (\<lambda>aij. verify_Az e rho zNtt L' i (j + 1) (polyAdd Az (MultiplyNTTs aij (zNtt ! j))))
      = Some (Inl err)"
    using j by (subst (asm) verify_Az.simps) simp
  from bind_r_Inl [OF this] show ?case
  proof
    assume "RejNTTPoly (c_XOF128 e rho j i) = Some (Inl err)"
    from RejNTTPoly_error [OF this] show ?thesis by blast
  next
    assume "\<exists>x. RejNTTPoly (c_XOF128 e rho j i) = Some (Inr x) \<and>
      verify_Az e rho zNtt L' i (j + 1) (polyAdd Az (MultiplyNTTs x (zNtt ! j))) = Some (Inl err)"
    then show ?thesis using Suc.hyps(1) [OF d] by blast
  qed
qed

lemma verify_rows_error:
  "verify_rows e p rho t1 c zNtt h i wTick1 = Some (Inl err) \<Longrightarrow>
    err = UnalignedBlock \<and> (\<exists>i j. \<not> xof_aligned (c_XOF128 e rho j i))"
proof (induction "p_K p - i" arbitrary: i wTick1)
  case 0
  then show ?case by (subst (asm) verify_rows.simps) simp
next
  case (Suc d)
  then have i: "i < p_K p" by simp
  have d: "d = p_K p - (i + 1)" using Suc.hyps(2) by simp
  from Suc.prems have "bind_r (verify_Az e rho zNtt (p_L p) i 0 (newPoly N))
      (\<lambda>Az. verify_rows e p rho t1 c zNtt h (i + 1)
         (wTick1 @ [polyUseHint p (c_NTT_decode e (polySub Az
            (MultiplyNTTs (c_NTT_encode e (polyShiftl (t1 ! i))) c))) (h ! i)]))
      = Some (Inl err)"
    using i by (subst (asm) verify_rows.simps) (simp add: Let_def)
  from bind_r_Inl [OF this] show ?case
  proof
    assume "verify_Az e rho zNtt (p_L p) i 0 (newPoly N) = Some (Inl err)"
    from verify_Az_error [OF this] show ?thesis .
  next
    assume "\<exists>x. verify_Az e rho zNtt (p_L p) i 0 (newPoly N) = Some (Inr x) \<and>
      verify_rows e p rho t1 c zNtt h (i + 1)
         (wTick1 @ [polyUseHint p (c_NTT_decode e (polySub x
            (MultiplyNTTs (c_NTT_encode e (polyShiftl (t1 ! i))) c))) (h ! i)]) = Some (Inl err)"
    then show ?thesis using Suc.hyps(1) [OF d] by blast
  qed
qed

lemma internal_verify_error:
  assumes "length publicKey = publicCoder_bytesLen p"
    and "internal_verify e p sig msg publicKey externalMu = Some (Inl err)"
  shows "err = UnalignedBlock \<and> (\<exists>i j. \<not> xof_aligned (c_XOF128 e (take 32 publicKey) j i))"
proof -
  define rho where "rho = take 32 publicKey"
  define t1 where "t1 = vec_decode (c_T1_decode e) T1_bytesLen (p_K p) (drop 32 publicKey)"
  have dec: "publicCoder_decode e p publicKey = Inr (rho, t1)"
    using assms(1) by (simp add: publicCoder_decode_def rho_def t1_def)
  have "\<exists>c zNtt h. verify_rows e p rho t1 c zNtt h 0 [] = Some (Inl err)"
    using assms(2)
    by (auto simp add: internal_verify_def dec sigCoder_decode_def Let_def
        split: if_splits option.splits sum.splits dest!: bind_r_Inl)
  then show ?thesis using verify_rows_error unfolding rho_def by blast
qed


lemma internal_verify_wrong_key:
  "length publicKey \<noteq> publicCoder_bytesLen p \<Longrightarrow>
    internal_verify e p sig msg publicKey externalMu =
      Some (Inl (WrongLength ''publicKey'' (publicCoder_bytesLen p) (length publicKey)))"
  by (simp add: internal_verify_def publicCoder_decode_def)

lemma internal_verify_early:
  assumes "length publicKey = publicCoder_bytesLen p"
    and "length sig \<noteq> sigCoder_bytesLen p \<or>
      hintCoder_decode p (drop (p_C_TILDE_BYTES p + p_L p * Z_bytesLen p) sig) = None"
  shows "internal_verify e p sig msg publicKey externalMu = Some (Inr False)"
  using assms
  by (auto simp add: internal_verify_def publicCoder_decode_def sigCoder_decode_def)

lemma internal_verify_returns:
  assumes pk: "length publicKey = publicCoder_bytesLen p"
    and tau: "p_TAU p \<le> N" and xofs: "verify_xofs_ok e p sig publicKey"
  shows "\<exists>b. internal_verify e p sig msg publicKey externalMu = Some (Inr b)"
proof -
  define rho where "rho = take 32 publicKey"
  define t1 where "t1 = vec_decode (c_T1_decode e) T1_bytesLen (p_K p) (drop 32 publicKey)"
  have dec: "publicCoder_decode e p publicKey = Inr (rho, t1)"
    using pk by (simp add: publicCoder_decode_def rho_def t1_def)
  have x128: "xof_aligned (c_XOF128 e rho j i) \<and> xof_accepts (c_XOF128 e rho j i)" for i j
    using xofs by (simp add: verify_xofs_ok_def rho_def)
  define cTilde where "cTilde = take (p_C_TILDE_BYTES p) sig"
  from xofs have "xof_blocks (c_shake256_xof e cTilde)"
    "xof_recurs (c_shake256_xof e cTilde) (N - p_TAU p)"
    by (simp_all add: verify_xofs_ok_def cTilde_def)
  from SampleInBall_returns [OF tau this]
  obtain c0 where c0: "SampleInBall p (c_shake256_xof e cTilde) = Some c0" by blast
  show ?thesis
  proof (cases "length sig \<noteq> sigCoder_bytesLen p \<or>
      hintCoder_decode p (drop (p_C_TILDE_BYTES p + p_L p * Z_bytesLen p) sig) = None")
    case True
    from internal_verify_early [OF pk this] show ?thesis by blast
  next
    case False
    then obtain h where len: "length sig = sigCoder_bytesLen p"
      and h: "hintCoder_decode p (drop (p_C_TILDE_BYTES p + p_L p * Z_bytesLen p) sig) = Some h"
      by auto
    obtain w where w: "verify_rows e p rho t1 (c_NTT_encode e c0)
        (map (c_NTT_encode e)
           (vec_decode (c_Z_decode e) (Z_bytesLen p) (p_L p) (drop (p_C_TILDE_BYTES p) sig)))
        h 0 [] = Some (Inr w)"
      using verify_rows_returns [OF x128] by blast
    show ?thesis
      using len h c0 w
      by (auto simp add: internal_verify_def dec sigCoder_decode_def cTilde_def Let_def
          bind_r_Inr)
  qed
qed

text \<open>C3, as the code has it. A public key of another length than the public coder's is not
  answered with \<open>False\<close>: decoding it throws. With a public key of that length, \<open>verify\<close>
  answers \<open>False\<close> to a signature of another length than the signature coder's and to a hint
  that does not decode; the one error it can still raise is \<^verbatim>\<open>RejNTTPoly: unaligned block\<close>,
  and only when the XOF128 given to the constructor returns a block whose length is not a
  multiple of 3; and it returns a boolean whenever \<open>TAU \<le> N\<close>, every XOF128 block has a length
  that is a multiple of 3, and the streams keep producing values that \<^verbatim>\<open>SampleInBall\<close> and
  \<^verbatim>\<open>RejNTTPoly\<close> accept, without which their rejection loops do not end.\<close>

theorem internal_verify_spec:
  "(length publicKey \<noteq> publicCoder_bytesLen p \<longrightarrow>
      internal_verify e p sig msg publicKey externalMu =
        Some (Inl (WrongLength ''publicKey'' (publicCoder_bytesLen p) (length publicKey)))) \<and>
   (length publicKey = publicCoder_bytesLen p \<longrightarrow>
      (length sig \<noteq> sigCoder_bytesLen p \<longrightarrow>
         internal_verify e p sig msg publicKey externalMu = Some (Inr False)) \<and>
      (hintCoder_decode p (drop (p_C_TILDE_BYTES p + p_L p * Z_bytesLen p) sig) = None \<longrightarrow>
         internal_verify e p sig msg publicKey externalMu = Some (Inr False)) \<and>
      (internal_verify e p sig msg publicKey externalMu = Some (Inl err) \<longrightarrow>
         err = UnalignedBlock \<and>
         (\<exists>i j. \<not> xof_aligned (c_XOF128 e (take 32 publicKey) j i))) \<and>
      (p_TAU p \<le> N \<longrightarrow> verify_xofs_ok e p sig publicKey \<longrightarrow>
         (\<exists>b. internal_verify e p sig msg publicKey externalMu = Some (Inr b))))"
  using internal_verify_wrong_key [of publicKey p e sig msg externalMu]
    internal_verify_early [of publicKey p sig e msg externalMu]
    internal_verify_error [of publicKey p e sig msg externalMu err]
    internal_verify_returns [of publicKey p e sig msg externalMu]
  by blast

lemma zero_hint_decodes:
  "hintCoder_decode prims44 (replicate 84 0) = Some (replicate 4 (newPoly N))"
  by code_simp


lemma zero_sig_verify:
  assumes e: "e = zero_crystals \<or> e = unaligned_crystals"
  shows "\<exists>t1 c0. SampleInBall prims44 zero_xof = Some c0 \<and>
    internal_verify e prims44 (replicate 2420 0) [] (replicate 1312 0) False =
      bind_r (verify_rows e prims44 (replicate 32 0) t1 c0 (replicate 4 (newPoly N))
                (replicate 4 (newPoly N)) 0 [])
        (\<lambda>wTick1. Some (Inr True))"
proof -
  have f: "c_shake256 e n b = replicate n 0" "c_shake256_xof e seed = zero_xof"
    "c_NTT_encode e r = r" "c_Z_decode e b = newPoly N" for n b seed r
    using e by (auto simp add: zero_crystals_def unaligned_crystals_def)
  define pk where "pk = replicate 1312 (0::byte)"
  define sig where "sig = replicate 2420 (0::byte)"
  define t1 where "t1 = vec_decode (c_T1_decode e) T1_bytesLen (p_K prims44) (drop 32 pk)"
  have dec: "publicCoder_decode e prims44 pk = Inr (replicate 32 0, t1)"
    by (simp add: publicCoder_decode_def prims44_lens pk_def t1_def)
  have z: "vec_decode (c_Z_decode e) (Z_bytesLen prims44) (p_L prims44)
      (drop (p_C_TILDE_BYTES prims44) sig) = replicate 4 (newPoly N)"
    by (simp add: vec_decode_def f prims44_fields map_replicate_const del: upt_Suc replicate_Suc)
  have d: "p_C_TILDE_BYTES prims44 + p_L prims44 * Z_bytesLen prims44 = 2336"
    by (simp add: prims44_def Z_bytesLen_def N_def)
  have h: "hintCoder_decode prims44 (drop (p_C_TILDE_BYTES prims44 + p_L prims44 * Z_bytesLen prims44)
      sig) = Some (replicate 4 (newPoly N))"
    by (simp add: d sig_def zero_hint_decodes)
  have sd: "sigCoder_decode e prims44 sig =
      Inr (replicate 32 0, replicate 4 (newPoly N), Some (replicate 4 (newPoly N)))"
    unfolding sigCoder_decode_def z h by (simp add: prims44_lens sig_def prims44_fields)
  have norm: "\<not> polyChknorm (newPoly N) (p_GAMMA1 prims44 - p_BETA prims44)"
    by (rule polyChknorm_zero) (simp add: prims44_fields)
  have n1: "\<not> list_ex (\<lambda>i. polyChknorm (replicate 4 (newPoly N) ! i)
      (p_GAMMA1 prims44 - p_BETA prims44)) [0 ..< p_L prims44]"
    using norm by (auto simp add: list_ex_iff prims44_fields)
  have n2: "\<not> list_ex (\<lambda>t. polyChknorm t (p_GAMMA1 prims44 - p_BETA prims44))
      (replicate 4 (newPoly N))"
    using norm by (auto simp add: list_ex_iff)
  have n3: "\<not> list_ex (\<lambda>t. \<not> sum_list t \<le> int (p_OMEGA prims44)) (replicate 4 (newPoly N))"
    by (auto simp add: list_ex_iff newPoly_def sum_list_replicate)
  obtain c0 where c0: "SampleInBall prims44 zero_xof = Some c0"
    using zero_xof_sample by blast
  have "internal_verify e prims44 sig [] pk False =
      bind_r (verify_rows e prims44 (replicate 32 0) t1 c0 (replicate 4 (newPoly N))
                (replicate 4 (newPoly N)) 0 [])
        (\<lambda>wTick1. Some (Inr True))"
    unfolding internal_verify_def dec sd Let_def
    using n1 n2 n3 c0
    by (simp add: f prims44_lens sig_def map_replicate prims44_fields del: replicate_Suc)
  then show ?thesis using c0 unfolding sig_def pk_def by blast
qed

lemma zero_verify_true:
  "internal_verify zero_crystals prims44 (replicate 2420 0) [] (replicate 1312 0) False =
    Some (Inr True)"
proof -
  from zero_sig_verify [of zero_crystals] obtain t1 c0 where
    v: "internal_verify zero_crystals prims44 (replicate 2420 0) [] (replicate 1312 0) False =
      bind_r (verify_rows zero_crystals prims44 (replicate 32 0) t1 c0 (replicate 4 (newPoly N))
                (replicate 4 (newPoly N)) 0 [])
        (\<lambda>wTick1. Some (Inr True))"
    by blast
  have "xof_aligned (\<lambda>n. replicate 168 0)" by (simp add: xof_aligned_def)
  moreover have "xof_accepts (\<lambda>n. replicate 168 0)"
    unfolding xof_accepts_def using zero_block_accepts by blast
  ultimately have "xof_aligned (c_XOF128 zero_crystals (replicate 32 0) j i) \<and>
      xof_accepts (c_XOF128 zero_crystals (replicate 32 0) j i)" for i j
    by (simp add: zero_crystals_def)
  from verify_rows_returns [OF this] obtain w where
    "verify_rows zero_crystals prims44 (replicate 32 0) t1 c0 (replicate 4 (newPoly N))
                (replicate 4 (newPoly N)) 0 [] = Some (Inr w)"
    by blast
  then show ?thesis by (simp add: v bind_r_Inr)
qed

lemma unaligned_verify_throws:
  "internal_verify unaligned_crystals prims44 (replicate 2420 0) [] (replicate 1312 0) False =
    Some (Inl UnalignedBlock)"
proof -
  from zero_sig_verify [of unaligned_crystals] obtain t1 c0 where
    v: "internal_verify unaligned_crystals prims44 (replicate 2420 0) [] (replicate 1312 0) False =
      bind_r (verify_rows unaligned_crystals prims44 (replicate 32 0) t1 c0
                (replicate 4 (newPoly N)) (replicate 4 (newPoly N)) 0 [])
        (\<lambda>wTick1. Some (Inr True))"
    by blast
  have x: "c_XOF128 unaligned_crystals seed x' y' = (\<lambda>n. [0])" for seed x' y'
    by (simp add: unaligned_crystals_def)
  have "RejNTTPoly (\<lambda>n. [0]) = Some (Inl UnalignedBlock)"
    unfolding RejNTTPoly_def by (subst RejNTTPoly_loop.simps) (simp add: N_def)
  then have "verify_Az unaligned_crystals (replicate 32 0) zNtt (p_L prims44) 0 0 Az =
      Some (Inl UnalignedBlock)" for zNtt Az
    by (subst verify_Az.simps) (simp add: x bind_r_def prims44_fields)
  then have "verify_rows unaligned_crystals prims44 (replicate 32 0) t1 c0
      (replicate 4 (newPoly N)) (replicate 4 (newPoly N)) 0 [] = Some (Inl UnalignedBlock)"
    by (subst verify_rows.simps) (simp add: bind_r_def prims44_fields Let_def)
  then show ?thesis by (simp add: v bind_r_def)
qed


theorem internal_verify_spec_witness:
  "length (replicate 1312 (0::byte)) = publicCoder_bytesLen prims44 \<and>
   length ([] :: bytes) \<noteq> sigCoder_bytesLen prims44 \<and>
   internal_verify zero_crystals prims44 [] [] (replicate 1312 0) False = Some (Inr False) \<and>
   length (replicate 2336 0 @ hint_bad) = sigCoder_bytesLen prims44 \<and>
   hintCoder_decode prims44 (drop (p_C_TILDE_BYTES prims44 + p_L prims44 * Z_bytesLen prims44)
     (replicate 2336 0 @ hint_bad)) = None \<and>
   internal_verify zero_crystals prims44 (replicate 2336 0 @ hint_bad) [] (replicate 1312 0) False
     = Some (Inr False) \<and>
   p_TAU prims44 \<le> N \<and>
   verify_xofs_ok zero_crystals prims44 (replicate 2420 0) (replicate 1312 0) \<and>
   length (replicate 2420 (0::byte)) = sigCoder_bytesLen prims44 \<and>
   hintCoder_decode prims44 (drop (p_C_TILDE_BYTES prims44 + p_L prims44 * Z_bytesLen prims44)
     (replicate 2420 0)) = Some (replicate 4 (newPoly N)) \<and>
   internal_verify zero_crystals prims44 (replicate 2420 0) [] (replicate 1312 0) False
     = Some (Inr True) \<and>
   internal_verify unaligned_crystals prims44 (replicate 2420 0) [] (replicate 1312 0) False
     = Some (Inl UnalignedBlock) \<and>
   (\<exists>i j. \<not> xof_aligned (c_XOF128 unaligned_crystals (take 32 (replicate 1312 0)) j i))"
proof -
  note spec = internal_verify_spec [where p = prims44 and publicKey = "replicate 1312 0"
      and msg = "[]" and externalMu = False]
  have pk: "length (replicate 1312 (0::byte)) = publicCoder_bytesLen prims44"
    by (simp add: prims44_lens)
  have d: "p_C_TILDE_BYTES prims44 + p_L prims44 * Z_bytesLen prims44 = 2336"
    by (simp add: prims44_def Z_bytesLen_def N_def)
  have s1: "length ([] :: bytes) \<noteq> sigCoder_bytesLen prims44" by (simp add: prims44_lens)
  have r1: "internal_verify zero_crystals prims44 [] [] (replicate 1312 0) False = Some (Inr False)"
    using spec [where e = zero_crystals and sig = "[]"] pk s1 by blast
  have s2: "length (replicate 2336 (0::byte) @ hint_bad) = sigCoder_bytesLen prims44"
    by (simp add: prims44_lens hint_bad_def)
  have h2: "hintCoder_decode prims44
      (drop (p_C_TILDE_BYTES prims44 + p_L prims44 * Z_bytesLen prims44)
         (replicate 2336 0 @ hint_bad)) = None"
    by (simp add: d hint_bad_rejected)
  have r2: "internal_verify zero_crystals prims44 (replicate 2336 0 @ hint_bad) []
      (replicate 1312 0) False = Some (Inr False)"
    using spec [where e = zero_crystals and sig = "replicate 2336 0 @ hint_bad"] pk h2 by blast
  have t: "p_TAU prims44 \<le> N" by (simp add: prims44_def N_def)
  have s3: "length (replicate 2420 (0::byte)) = sigCoder_bytesLen prims44"
    by (simp add: prims44_lens)
  have h3: "hintCoder_decode prims44
      (drop (p_C_TILDE_BYTES prims44 + p_L prims44 * Z_bytesLen prims44) (replicate 2420 0))
      = Some (replicate 4 (newPoly N))"
    by (simp add: d zero_hint_decodes)
  have "\<exists>b. internal_verify zero_crystals prims44 (replicate 2420 0) [] (replicate 1312 0) False
      = Some (Inr b)"
    using spec [where e = zero_crystals and sig = "replicate 2420 0"] pk t zero_crystals_ok
    by blast
  then have r3: "internal_verify zero_crystals prims44 (replicate 2420 0) [] (replicate 1312 0)
      False = Some (Inr True)"
    using zero_verify_true by simp
  have r4: "internal_verify unaligned_crystals prims44 (replicate 2420 0) []
      (replicate 1312 0) False = Some (Inl UnalignedBlock)"
    by (rule unaligned_verify_throws)
  have x4: "\<exists>i j. \<not> xof_aligned (c_XOF128 unaligned_crystals (take 32 (replicate 1312 0)) j i)"
    using spec [where e = unaligned_crystals and sig = "replicate 2420 0"
        and err = UnalignedBlock] pk r4
    by blast
  show ?thesis
    using pk s1 r1 s2 h2 r2 t zero_crystals_ok [of prims44 "replicate 2420 0" "replicate 1312 0"]
      s3 h3 r3 r4 x4
    by blast
qed

text \<open>An empty public key: the call throws, it does not return \<open>False\<close>.\<close>

theorem internal_verify_throws:
  "internal_verify zero_crystals prims44 [] [] [] False =
    Some (Inl (WrongLength ''publicKey'' 1312 0))"
  by (simp add: internal_verify_def publicCoder_decode_def prims44_lens)

end
